theory Spec2Isabelle
  imports Main "HOL-Library.Multiset"
begin

section \<open>Python string primitives used by the merger and the chunker\<close>

text \<open>
  Strings are \<open>char list\<close>; a line is a string without line feed. The source's
  \<^verbatim>\<open>str.strip()\<close>, \<^verbatim>\<open>str.split()\<close> and the regular-expression class
  \<^verbatim>\<open>\s\<close> all use the same whitespace test (\<^verbatim>\<open>str.isspace\<close>); on the
  code points below 256 it holds for exactly the twelve characters listed here.
\<close>

definition is_space :: "char \<Rightarrow> bool" where
  "is_space c = (c \<in> set [CHR 0x09, CHR 0x0A, CHR 0x0B, CHR 0x0C, CHR 0x0D,
                            CHR 0x1C, CHR 0x1D, CHR 0x1E, CHR 0x1F, CHR 0x20,
                            CHR 0x85, CHR 0xA0])"

definition lstrip :: "string \<Rightarrow> string" where
  "lstrip s = dropWhile is_space s"

definition strip :: "string \<Rightarrow> string" where
  "strip s = rev (dropWhile is_space (rev (dropWhile is_space s)))"

definition startswith :: "string \<Rightarrow> string \<Rightarrow> bool" where
  "startswith p s = (take (length p) s = p)"

text \<open>\<^verbatim>\<open>s.replace(old, new)\<close> for a non-empty \<open>old\<close>: leftmost, non-overlapping
  occurrences. Both call sites pass a non-empty \<open>old\<close>.\<close>

function replace :: "string \<Rightarrow> string \<Rightarrow> string \<Rightarrow> string" where
  "replace old new [] = []"
| "replace old new (c # cs) =
     (if old \<noteq> [] \<and> startswith old (c # cs)
      then new @ replace old new (drop (length old) (c # cs))
      else c # replace old new cs)"
  by pat_completeness auto
termination
  by (relation "measure (\<lambda>(old, new, s). length s)") auto

text \<open>\<^verbatim>\<open>s.split(sep)\<close> for a one-character separator: never returns the empty list.\<close>

fun split_on :: "char \<Rightarrow> string \<Rightarrow> string list" where
  "split_on sep [] = [[]]"
| "split_on sep (c # cs) =
     (if c = sep then [] # split_on sep cs
      else (case split_on sep cs of
              [] \<Rightarrow> [[c]]
            | w # ws \<Rightarrow> (c # w) # ws))"

text \<open>\<^verbatim>\<open>sep.join(xs)\<close>.\<close>

fun join :: "string \<Rightarrow> string list \<Rightarrow> string" where
  "join sep [] = []"
| "join sep [x] = x"
| "join sep (x # y # ys) = x @ sep @ join sep (y # ys)"

text \<open>\<^verbatim>\<open>text.split()\<close> with no argument: the maximal runs of non-whitespace
  characters, scanned left to right; \<open>cur\<close> is the run being read.\<close>

fun split_ws :: "string \<Rightarrow> string \<Rightarrow> string list" where
  "split_ws cur [] = (if cur = [] then [] else [cur])"
| "split_ws cur (c # cs) =
     (if is_space c
      then (if cur = [] then split_ws [] cs else cur # split_ws [] cs)
      else split_ws (cur @ [c]) cs)"

datatype py_error = IndexError

section \<open>The chunker: \<^verbatim>\<open>batch_html_by_tokens\<close>\<close>

definition count_tokens :: "string \<Rightarrow> int" where
  "count_tokens text = int (length (split_ws [] text))"

text \<open>
  The loop over \<^verbatim>\<open>body.children\<close>. The HTML parser is outside the model: the
  document is the list of the children's renderings \<^verbatim>\<open>str(element)\<close>. The state is
  the pair \<^verbatim>\<open>(batches, current_batch)\<close>.
\<close>

fun batch_loop :: "int \<Rightarrow> string list \<times> string \<Rightarrow> string list \<Rightarrow> string list \<times> string" where
  "batch_loop token_limit (batches, current_batch) [] = (batches, current_batch)"
| "batch_loop token_limit (batches, current_batch) (element # rest) =
     (let elem_str = strip element in
      if elem_str = [] then batch_loop token_limit (batches, current_batch) rest
      else let tokens_in_elem = count_tokens elem_str in
        if tokens_in_elem > token_limit
        then (if current_batch \<noteq> []
              then batch_loop token_limit (batches @ [current_batch] @ [elem_str], []) rest
              else batch_loop token_limit (batches @ [elem_str], []) rest)
        else let current_tokens = count_tokens current_batch in
          if current_tokens + tokens_in_elem \<le> token_limit
          then batch_loop token_limit (batches, current_batch @ ''\<newline>'' @ elem_str) rest
          else batch_loop token_limit (batches @ [current_batch], elem_str) rest)"

text \<open>The batches before wrapping: the loop, then the final flush.\<close>

definition batches_of :: "string list \<Rightarrow> int \<Rightarrow> string list" where
  "batches_of children token_limit =
     (case batch_loop token_limit ([], []) children of
        (batches, current_batch) \<Rightarrow>
          if current_batch \<noteq> [] then batches @ [current_batch] else batches)"

definition wrap_batch :: "string \<Rightarrow> string" where
  "wrap_batch batch = ''<html><head></head><body>'' @ batch @ ''</body></html>''"

definition batch_html_by_tokens :: "string list \<Rightarrow> int \<Rightarrow> string list" where
  "batch_html_by_tokens children token_limit = map wrap_batch (batches_of children token_limit)"

section \<open>The merger: \<^verbatim>\<open>beautify_ruby_class\<close>\<close>

subsection \<open>Line endings and lines\<close>

definition normalize_newlines :: "string \<Rightarrow> string" where
  "normalize_newlines combined_code =
     replace [CHR 0x0D] [CHR 0x0A] (replace [CHR 0x0D, CHR 0x0A] [CHR 0x0A] combined_code)"

definition code_lines :: "string \<Rightarrow> string list" where
  "code_lines combined_code = split_on (CHR 0x0A) (normalize_newlines combined_code)"

subsection \<open>Step 1: flattening the class blocks\<close>

fun flatten_loop :: "nat \<Rightarrow> string list \<Rightarrow> string list" where
  "flatten_loop in_class [] = []"
| "flatten_loop in_class (line # rest) =
     (let stripped = strip line in
      if startswith ''class '' stripped then flatten_loop (in_class + 1) rest
      else if stripped = ''end''
        then (if in_class > 0 then flatten_loop (in_class - 1) rest
              else flatten_loop in_class rest)
      else (if in_class > 0 then line # flatten_loop in_class rest
            else flatten_loop in_class rest))"

definition flattened_lines :: "string list \<Rightarrow> string list" where
  "flattened_lines lines =
     (let flattened = flatten_loop 0 lines in
      if flattened = [] then lines else flattened)"

subsection \<open>Step 2: the include directive\<close>

text \<open>The pattern \<^verbatim>\<open>^\s*include\s+PageObject\s*$\<close>, matched from the start.\<close>

definition include_re :: "string \<Rightarrow> bool" where
  "include_re s =
     (let r = dropWhile is_space s in
      startswith ''include'' r \<and>
      (let r1 = drop 7 r in
       r1 \<noteq> [] \<and> is_space (hd r1) \<and>
       (let r2 = dropWhile is_space r1 in
        startswith ''PageObject'' r2 \<and> dropWhile is_space (drop 10 r2) = [])))"

definition includes_found :: "string list \<Rightarrow> string list" where
  "includes_found ls = map strip (filter (\<lambda>line. include_re (strip line)) ls)"

definition tmp_after_includes :: "string list \<Rightarrow> string list" where
  "tmp_after_includes ls = filter (\<lambda>line. \<not> include_re (strip line)) ls"

subsection \<open>Step 3: accessors\<close>

definition accessor_keywords :: "string list" where
  "accessor_keywords =
     [''text_field'', ''hidden_field'', ''button'', ''link'', ''select_list'', ''checkbox'',
      ''radio_button'', ''radio_button_group'', ''textarea'', ''div'', ''span'', ''table'',
      ''cell'', ''image'', ''element'', ''heading'', ''paragraph'']"

text \<open>The pattern \<^verbatim>\<open>^\s*(?:kw1|kw2|...)\s*\(\<close>: some keyword, in the order of the
  alternation, is followed by optional whitespace and an opening parenthesis.\<close>

definition accessor_pattern :: "string \<Rightarrow> bool" where
  "accessor_pattern s =
     (let r = dropWhile is_space s in
      list_ex (\<lambda>kw. startswith kw r \<and>
                    startswith ''('' (dropWhile is_space (drop (length kw) r)))
              accessor_keywords)"

text \<open>The loop of step 3; the state is \<^verbatim>\<open>(accessors, seen_accessors,
  lines_after_accessors)\<close>.\<close>

fun accessor_loop ::
  "string list \<times> string set \<times> string list \<Rightarrow> string list \<Rightarrow> string list \<times> string set \<times> string list"
where
  "accessor_loop st [] = st"
| "accessor_loop (accessors, seen_accessors, lines_after_accessors) (line # rest) =
     (if accessor_pattern (strip line)
      then (let norm = strip line in
            if norm \<notin> seen_accessors
            then accessor_loop (accessors @ [norm], insert norm seen_accessors,
                                lines_after_accessors) rest
            else accessor_loop (accessors, seen_accessors, lines_after_accessors) rest)
      else accessor_loop (accessors, seen_accessors, lines_after_accessors @ [line]) rest)"

definition accessors_of :: "string list \<Rightarrow> string list" where
  "accessors_of ls = fst (accessor_loop ([], {}, []) ls)"

definition lines_after_accessors_of :: "string list \<Rightarrow> string list" where
  "lines_after_accessors_of ls = snd (snd (accessor_loop ([], {}, []) ls))"

subsection \<open>Step 4: method definitions\<close>

definition is_name_char :: "char \<Rightarrow> bool" where
  "is_name_char c =
     (c \<in> set ''abcdefghijklmnopqrstuvwxyzABCDEFGHIJKLMNOPQRSTUVWXYZ0123456789_!?'')"

text \<open>The pattern \<^verbatim>\<open>^\s*def\s+([a-zA-Z0-9_!?]+)\<close>; the result is group 1.\<close>

definition def_pattern :: "string \<Rightarrow> string option" where
  "def_pattern s =
     (let r = dropWhile is_space s in
      if startswith ''def'' r
      then (let r1 = drop 3 r in
            if r1 \<noteq> [] \<and> is_space (hd r1)
            then (let name = takeWhile is_name_char (dropWhile is_space r1) in
                  if name \<noteq> [] then Some name else None)
            else None)
      else None)"

text \<open>The pattern \<^verbatim>\<open>^\s*end\s*$\<close>.\<close>

definition end_pattern :: "string \<Rightarrow> bool" where
  "end_pattern s =
     (let r = dropWhile is_space s in
      startswith ''end'' r \<and> dropWhile is_space (drop 3 r) = [])"

text \<open>\<^verbatim>\<open>methods_extracted\<close> is a dictionary from method name to the list of its
  blocks; Python dictionaries keep insertion order, which step 5 iterates in, so it is
  an association list with one entry per key.\<close>

type_synonym methods = "(string \<times> string list list) list"

fun file_block :: "string \<Rightarrow> string list \<Rightarrow> methods \<Rightarrow> methods" where
  "file_block name block [] = [(name, [block])]"
| "file_block name block ((k, blocks) # m) =
     (if k = name then (k, blocks @ [block]) # m
      else (k, blocks) # file_block name block m)"

record scan_state =
  methods_extracted :: methods
  leftover :: "string list"
  in_method :: bool
  current_method_name :: "string option"
  current_method_lines :: "string list"

definition flush_method :: "scan_state \<Rightarrow> scan_state" where
  "flush_method st =
     (let st' = (case current_method_name st of
                   Some name \<Rightarrow>
                     if current_method_lines st \<noteq> []
                     then st\<lparr>methods_extracted :=
                               file_block name (current_method_lines st) (methods_extracted st)\<rparr>
                     else st
                 | None \<Rightarrow> st)
      in st'\<lparr>current_method_name := None, current_method_lines := []\<rparr>)"

definition scan_line :: "scan_state \<Rightarrow> string \<Rightarrow> scan_state" where
  "scan_line st line =
     (case (if in_method st then None else def_pattern line) of
        Some name \<Rightarrow>
          (flush_method (st\<lparr>in_method := True\<rparr>))
             \<lparr>current_method_name := Some name, current_method_lines := [line]\<rparr>
      | None \<Rightarrow>
          if in_method st
          then (if end_pattern line
                then (flush_method
                        (st\<lparr>current_method_lines := current_method_lines st @ [line]\<rparr>))
                       \<lparr>in_method := False\<rparr>
                else st\<lparr>current_method_lines := current_method_lines st @ [line]\<rparr>)
          else st\<lparr>leftover := leftover st @ [line]\<rparr>)"

fun scan_loop :: "scan_state \<Rightarrow> string list \<Rightarrow> scan_state" where
  "scan_loop st [] = st"
| "scan_loop st (line # rest) = scan_loop (scan_line st line) rest"

definition scan_init :: scan_state where
  "scan_init = \<lparr>methods_extracted = [], leftover = [], in_method = False,
                 current_method_name = None, current_method_lines = []\<rparr>"

text \<open>The loop, then the flush of a method that the input left open.\<close>

definition extract_methods :: "string list \<Rightarrow> scan_state" where
  "extract_methods ls =
     (let st = scan_loop scan_init ls in
      if in_method st \<and> current_method_lines st \<noteq> [] then flush_method st else st)"

subsection \<open>Step 5: unifying the blocks of one method\<close>

definition separator :: string where
  "separator = ''      # ----- Merged from duplicate method definition -----''"

text \<open>The slice \<^verbatim>\<open>block[1:-1]\<close>, empty for a block of fewer than three lines.\<close>

definition inner_lines :: "string list \<Rightarrow> string list" where
  "inner_lines block = butlast (tl block)"

text \<open>\<^verbatim>\<open>first_block[0]\<close> raises IndexError on an empty block.\<close>

definition final_method_lines :: "string list \<Rightarrow> string list list \<Rightarrow> py_error + string list" where
  "final_method_lines first_block others =
     (case first_block of
        [] \<Rightarrow> Inl IndexError
      | opening # _ \<Rightarrow>
          (let final_method_body =
                 inner_lines first_block @
                 concat (map (\<lambda>other_block. separator # inner_lines other_block) others)
           in if length first_block > 1
              then Inr ([opening] @ final_method_body @ [last first_block])
              else Inr ([opening] @ final_method_body @ [''end''])))"

fun merge_loop :: "methods \<Rightarrow> py_error + string list" where
  "merge_loop [] = Inr []"
| "merge_loop ((m_name, blocks) # rest) =
     (case blocks of
        [] \<Rightarrow> merge_loop rest
      | first_block # others \<Rightarrow>
          (case final_method_lines first_block others of
             Inl e \<Rightarrow> Inl e
           | Inr ls \<Rightarrow>
               (case merge_loop rest of
                  Inl e \<Rightarrow> Inl e
                | Inr merged \<Rightarrow> Inr (join ''\<newline>'' ls # merged))))"

subsection \<open>Step 6: the final class\<close>

definition leftover_header :: string where
  "leftover_header =
     ''  # leftover lines that did not belong to any recognized method or accessor''"

definition method_section :: "string list \<Rightarrow> string list" where
  "method_section merged_methods =
     concat (map (\<lambda>method_def.
                    map (\<lambda>line. ''  '' @ line) (split_on (CHR 0x0A) method_def) @ [[]])
                 merged_methods)"

definition leftover_section :: "string list \<Rightarrow> string list" where
  "leftover_section leftover_lines =
     (let leftover_stripped = filter (\<lambda>ln. strip ln \<noteq> []) leftover_lines in
      if leftover_stripped \<noteq> []
      then leftover_header # map (\<lambda>ln. ''  '' @ strip ln) leftover_stripped
      else [])"

definition final_lines ::
  "string \<Rightarrow> bool \<Rightarrow> string list \<Rightarrow> string list \<Rightarrow> string list \<Rightarrow> string list" where
  "final_lines site_name found_include_pageobject accessors merged_methods leftover_lines =
     [''class '' @ site_name, []] @
     (if found_include_pageobject then [''  include PageObject'', []] else []) @
     map (\<lambda>ac. ''  '' @ ac) accessors @ [[]] @
     method_section merged_methods @
     leftover_section leftover_lines @
     [''end'']"

text \<open>The whole pass on the lines of the input, and on the input text.\<close>

definition beautify_lines :: "string list \<Rightarrow> string \<Rightarrow> py_error + string list" where
  "beautify_lines lines site_name =
     (let flattened = flattened_lines lines;
          found_include_pageobject = (includes_found flattened \<noteq> []);
          after_includes = tmp_after_includes flattened;
          accessors = accessors_of after_includes;
          st = extract_methods (lines_after_accessors_of after_includes)
      in case merge_loop (methods_extracted st) of
           Inl e \<Rightarrow> Inl e
         | Inr merged_methods \<Rightarrow>
             Inr (final_lines site_name found_include_pageobject accessors merged_methods
                    (leftover st)))"

definition beautify_ruby_class :: "string \<Rightarrow> string \<Rightarrow> py_error + string" where
  "beautify_ruby_class combined_code site_name =
     (case beautify_lines (code_lines combined_code) site_name of
        Inl e \<Rightarrow> Inl e
      | Inr ls \<Rightarrow> Inr (join ''\<newline>'' ls))"

subsection \<open>The parts of the merged block\<close>

text \<open>The values that \<^verbatim>\<open>beautify_ruby_class\<close> computes on the way, as functions of the
  input text: the content stream, the include flag, the accessor list, the dictionary of
  method blocks and the leftover lines.\<close>

definition content_stream :: "string \<Rightarrow> string list" where
  "content_stream combined_code = flattened_lines (code_lines combined_code)"

definition merge_include :: "string \<Rightarrow> bool" where
  "merge_include combined_code = (includes_found (content_stream combined_code) \<noteq> [])"

definition merge_accessors :: "string \<Rightarrow> string list" where
  "merge_accessors combined_code =
     accessors_of (tmp_after_includes (content_stream combined_code))"

definition merge_scan :: "string \<Rightarrow> scan_state" where
  "merge_scan combined_code =
     extract_methods (lines_after_accessors_of (tmp_after_includes (content_stream combined_code)))"

definition merge_method_names :: "string \<Rightarrow> string list" where
  "merge_method_names combined_code = map fst (methods_extracted (merge_scan combined_code))"

section \<open>Reference definitions for the stated properties\<close>

text \<open>Every distinct element once, in the order of first occurrence.\<close>

fun dedup_first :: "'a list \<Rightarrow> 'a list" where
  "dedup_first [] = []"
| "dedup_first (x # xs) = x # dedup_first (filter (\<lambda>y. y \<noteq> x) xs)"

text \<open>A text with every CR LF pair and every remaining CR replaced by LF.\<close>

fun unix_line_endings :: "string \<Rightarrow> string" where
  "unix_line_endings [] = []"
| "unix_line_endings [c] = (if c = CHR 0x0D then [CHR 0x0A] else [c])"
| "unix_line_endings (c # d # cs) =
     (if c = CHR 0x0D \<and> d = CHR 0x0A then CHR 0x0A # unix_line_endings cs
      else if c = CHR 0x0D then CHR 0x0A # unix_line_endings (d # cs)
      else c # unix_line_endings (d # cs))"


text \<open>The merged definition of one name from its occurrences, in order: the opening
  line of the first, its inner lines, for each later occurrence the separator and that
  occurrence's inner lines, then the closing line, which is the last line of the first
  occurrence when it has more than one line and a generated \<open>end\<close> otherwise.\<close>

definition merged_definition :: "string list list \<Rightarrow> string list" where
  "merged_definition blocks =
     take 1 (hd blocks) @ inner_lines (hd blocks) @
     concat (map (\<lambda>b. separator # inner_lines b) (tl blocks)) @
     [if length (hd blocks) > 1 then last (hd blocks) else ''end'']"

text \<open>A batch is within the limit, or it is one child on its own whose count exceeds
  the limit.\<close>

definition within_limit :: "string list \<Rightarrow> int \<Rightarrow> string \<Rightarrow> bool" where
  "within_limit children token_limit b =
     (count_tokens b \<le> token_limit \<or>
      (b \<in> strip ` set children \<and> token_limit < count_tokens b))"

text \<open>Every stored line of a scanner state satisfies \<open>Q\<close>, and every filed block is
  non-empty and filed under a name with at least one block.\<close>

definition methods_inv :: "(string \<Rightarrow> bool) \<Rightarrow> methods \<Rightarrow> bool" where
  "methods_inv Q m =
     list_all (\<lambda>(name, blocks). blocks \<noteq> [] \<and> list_all (\<lambda>b. b \<noteq> [] \<and> list_all Q b) blocks) m"

definition scan_inv :: "(string \<Rightarrow> bool) \<Rightarrow> scan_state \<Rightarrow> bool" where
  "scan_inv Q st =
     (list_all Q (leftover st) \<and> list_all Q (current_method_lines st) \<and>
      methods_inv Q (methods_extracted st))"

text \<open>The four kinds of retained line. A line is a directive line when its stripped text
  matches the include pattern, otherwise an accessor line when it matches the accessor
  pattern; of the others, in order, the lines before the first method opening are leftover
  lines and the lines from the first method opening on are captured lines.\<close>

definition directive_lines :: "string list \<Rightarrow> string list" where
  "directive_lines R = filter (\<lambda>l. include_re (strip l)) R"

definition accessor_lines :: "string list \<Rightarrow> string list" where
  "accessor_lines R = filter (\<lambda>l. \<not> include_re (strip l) \<and> accessor_pattern (strip l)) R"

definition other_lines :: "string list \<Rightarrow> string list" where
  "other_lines R = filter (\<lambda>l. \<not> include_re (strip l) \<and> \<not> accessor_pattern (strip l)) R"

definition leftover_lines :: "string list \<Rightarrow> string list" where
  "leftover_lines R = takeWhile (\<lambda>l. def_pattern l = None) (other_lines R)"

definition captured_lines :: "string list \<Rightarrow> string list" where
  "captured_lines R = dropWhile (\<lambda>l. def_pattern l = None) (other_lines R)"

text \<open>A line without line break, and a line that is neither a directive nor an accessor
  line.\<close>

definition no_break :: "string \<Rightarrow> bool" where
  "no_break l = (CHR 0x0A \<notin> set l \<and> CHR 0x0D \<notin> set l)"

definition plain_line :: "string \<Rightarrow> bool" where
  "plain_line l = (\<not> include_re (strip l) \<and> \<not> accessor_pattern (strip l))"

text \<open>A line that step 1 neither counts as a class opening nor as an end.\<close>

definition neutral_line :: "string \<Rightarrow> bool" where
  "neutral_line l = (\<not> startswith ''class '' (strip l) \<and> strip l \<noteq> ''end'')"

section \<open>Lemmas on the string primitives\<close>

subsection \<open>Whitespace and stripping\<close>

lemma set_dropWhile_subset: "set (dropWhile P xs) \<subseteq> set xs"
  by (induction xs) auto

lemma set_strip_subset: "set (strip s) \<subseteq> set s"
proof -
  have "set (strip s) = set (dropWhile is_space (rev (dropWhile is_space s)))"
    by (simp add: strip_def)
  also have "\<dots> \<subseteq> set (rev (dropWhile is_space s))" by (rule set_dropWhile_subset)
  also have "\<dots> \<subseteq> set s" using set_dropWhile_subset [of is_space s] by simp
  finally show ?thesis .
qed

lemma strip_Nil [simp]: "strip [] = []"
  by (simp add: strip_def)

lemma all_space_dropWhile: "(dropWhile is_space ws = []) = (\<forall>c\<in>set ws. is_space c)"
  by (induction ws) auto

lemma dropWhile_rev_take:
  "xs = rev (dropWhile P (rev xs)) @ rev (takeWhile P (rev xs))"
proof -
  have "rev (rev xs) = rev (takeWhile P (rev xs) @ dropWhile P (rev xs))"
    by (simp only: takeWhile_dropWhile_id)
  then show ?thesis by (simp only: rev_append rev_rev_ident)
qed

text \<open>A text is its leading whitespace, its stripped text and its trailing whitespace.\<close>

lemma strip_decompose:
  "\<exists>pre post. s = pre @ strip s @ post \<and> (\<forall>c\<in>set pre. is_space c) \<and> (\<forall>c\<in>set post. is_space c)
     \<and> dropWhile is_space s = strip s @ post"
proof -
  let ?r = "dropWhile is_space s"
  let ?pre = "takeWhile is_space s"
  let ?post = "rev (takeWhile is_space (rev ?r))"
  have r: "?r = strip s @ ?post"
    unfolding strip_def by (rule dropWhile_rev_take)
  have "?pre @ ?r = s" by simp
  then have "s = ?pre @ strip s @ ?post" by (subst (asm) r) simp
  moreover have "\<forall>c\<in>set ?pre. is_space c" by (auto dest: set_takeWhileD)
  moreover have "\<forall>c\<in>set ?post. is_space c" by (auto dest: set_takeWhileD)
  ultimately show ?thesis using r by blast
qed

lemma hd_strip_not_space: "strip s \<noteq> [] \<Longrightarrow> \<not> is_space (hd (strip s))"
proof -
  assume ne: "strip s \<noteq> []"
  obtain post where d: "dropWhile is_space s = strip s @ post"
    using strip_decompose [of s] by blast
  have "dropWhile is_space s \<noteq> []" using ne d by simp
  then have "\<not> is_space (hd (dropWhile is_space s))" by (rule hd_dropWhile)
  with d ne show ?thesis by simp
qed

lemma last_strip_not_space: "strip s \<noteq> [] \<Longrightarrow> \<not> is_space (last (strip s))"
proof -
  assume ne: "strip s \<noteq> []"
  let ?d = "dropWhile is_space (rev (dropWhile is_space s))"
  have s: "strip s = rev ?d" by (simp add: strip_def)
  have d: "?d \<noteq> []" using ne s by simp
  then have "\<not> is_space (hd ?d)" by (rule hd_dropWhile)
  moreover have "last (rev ?d) = hd ?d" using d by (simp add: last_rev)
  ultimately show ?thesis using s by simp
qed

lemma dropWhile_id: "xs = [] \<or> \<not> P (hd xs) \<Longrightarrow> dropWhile P xs = xs"
  by (cases xs) auto

lemma strip_fixed:
  assumes "s = [] \<or> (\<not> is_space (hd s) \<and> \<not> is_space (last s))"
  shows "strip s = s"
proof -
  have a: "dropWhile is_space s = s" using assms by (intro dropWhile_id) blast
  have "rev s = [] \<or> \<not> is_space (hd (rev s))" using assms by (cases "s = []") (simp_all add: hd_rev)
  then have "dropWhile is_space (rev s) = rev s" by (rule dropWhile_id)
  with a show ?thesis by (simp add: strip_def)
qed

lemma strip_strip [simp]: "strip (strip s) = strip s"
  using hd_strip_not_space [of s] last_strip_not_space [of s] by (intro strip_fixed) blast

lemma strip_lead_space: "is_space c \<Longrightarrow> strip (c # s) = strip s"
  by (simp add: strip_def)

lemma is_space_blank [simp]: "is_space CHR '' ''"
  by (simp add: is_space_def)

lemma is_space_newline [simp]: "is_space (CHR 0x0A)"
  by (simp add: is_space_def)

lemma strip_indent [simp]: "strip (CHR '' '' # CHR '' '' # s) = strip s"
  by (simp add: strip_lead_space)

lemma dropWhile_strip: "dropWhile is_space (strip s) = strip s"
  using hd_strip_not_space [of s] by (intro dropWhile_id) blast

lemma strip_all_space: "\<forall>c\<in>set s. is_space c \<Longrightarrow> strip s = []"
proof -
  assume "\<forall>c\<in>set s. is_space c"
  then have "dropWhile is_space s = []" by (simp only: all_space_dropWhile)
  then show ?thesis by (simp only: strip_def dropWhile.simps rev.simps)
qed

lemma strip_append_spaces:
  assumes "\<forall>c\<in>set ws. is_space c"
  shows "strip (s @ ws) = strip s"
proof (cases "\<forall>c\<in>set s. is_space c")
  case True
  then have "\<forall>c\<in>set (s @ ws). is_space c" using assms by auto
  then have "strip (s @ ws) = []" by (rule strip_all_space)
  moreover have "strip s = []" using True by (rule strip_all_space)
  ultimately show ?thesis by simp
next
  case False
  then obtain x where x: "x \<in> set s" "\<not> is_space x" by blast
  then have d: "dropWhile is_space (s @ ws) = dropWhile is_space s @ ws"
    by (simp add: dropWhile_append1)
  have e: "dropWhile is_space (rev ws) = []" using assms by (simp add: all_space_dropWhile)
  have "dropWhile is_space (rev ws @ rev (dropWhile is_space s)) =
             dropWhile is_space (rev (dropWhile is_space s))"
    using assms by (simp add: dropWhile_append)
  then show ?thesis by (simp add: strip_def d)
qed

text \<open>The end pattern holds exactly for the lines whose stripped text is \<open>end\<close>.\<close>

lemma end_pattern_unfold:
  "end_pattern s = (take 3 (dropWhile is_space s) = ''end'' \<and> 
      dropWhile is_space (drop 3 (dropWhile is_space s)) = [])"
  unfolding end_pattern_def startswith_def Let_def by (simp only: list.size length_Cons One_nat_def numeral_3_eq_3 add_Suc add_0 plus_nat.simps)

lemma strip_end [simp]: "strip ''end'' = ''end''"
  by (simp add: strip_def is_space_def)

lemma end_pattern_iff: "end_pattern s = (strip s = ''end'')"
proof
  assume e: "end_pattern s"
  define r where "r = dropWhile is_space s"
  from e have t: "take 3 r = ''end''" and d: "dropWhile is_space (drop 3 r) = []"
    unfolding end_pattern_unfold r_def by blast+
  have r: "r = ''end'' @ drop 3 r"
    by (rule append_take_drop_id [of 3 r, unfolded t, symmetric])
  have sp: "\<forall>c\<in>set (drop 3 r). is_space c" using d by (simp only: all_space_dropWhile)
  have "strip s = strip r" unfolding strip_def r_def by simp
  also have "\<dots> = strip (''end'' @ drop 3 r)" by (rule arg_cong [OF r])
  also have "\<dots> = strip ''end''" using sp by (rule strip_append_spaces)
  also have "\<dots> = ''end''" by (rule strip_end)
  finally show "strip s = ''end''" .
next
  assume s: "strip s = ''end''"
  obtain post where d: "dropWhile is_space s = strip s @ post" and p: "\<forall>c\<in>set post. is_space c"
    using strip_decompose [of s] by blast
  have r: "dropWhile is_space s = ''end'' @ post" by (simp only: d s)
  have "dropWhile is_space post = []" using p by (simp only: all_space_dropWhile)
  then show "end_pattern s"
    unfolding end_pattern_unfold r by simp
qed

subsection \<open>Splitting and joining\<close>

lemma split_on_not_Nil [simp]: "split_on sep s \<noteq> []"
  by (induction s) (auto split: list.splits)

lemma split_on_no_sep: "sep \<notin> set s \<Longrightarrow> split_on sep s = [s]"
  by (induction s) auto

lemma split_on_append_sep:
  "sep \<notin> set x \<Longrightarrow> split_on sep (x @ sep # s) = x # split_on sep s"
  by (induction x) auto

lemma split_on_join:
  "ls \<noteq> [] \<Longrightarrow> \<forall>l\<in>set ls. sep \<notin> set l \<Longrightarrow> split_on sep (join [sep] ls) = ls"
proof (induction ls)
  case Nil
  then show ?case by simp
next
  case (Cons x xs)
  show ?case
  proof (cases xs)
    case Nil
    with Cons.prems show ?thesis by (simp add: split_on_no_sep)
  next
    case (Cons y ys)
    with Cons.prems Cons.IH show ?thesis by (simp add: split_on_append_sep)
  qed
qed

lemma set_split_on: "l \<in> set (split_on sep s) \<Longrightarrow> set l \<subseteq> set s"
proof (induction s arbitrary: l)
  case Nil then show ?case by simp
next
  case (Cons c cs)
  obtain w ws where w: "split_on sep cs = w # ws"
    using split_on_not_Nil [of sep cs] by (cases "split_on sep cs") auto
  have iw: "set w \<subseteq> set cs" using Cons.IH [of w] w by simp
  show ?case
  proof (cases "c = sep")
    case True
    with Cons.prems have "l = [] \<or> l \<in> set (split_on sep cs)" by simp
    then show ?thesis using Cons.IH [of l] by auto
  next
    case False
    with Cons.prems w have "l = c # w \<or> l \<in> set ws" by simp
    then show ?thesis
    proof
      assume "l = c # w" then show ?thesis using iw by auto
    next
      assume "l \<in> set ws"
      then have "l \<in> set (split_on sep cs)" using w by simp
      then show ?thesis using Cons.IH [of l] by auto
    qed
  qed
qed

lemma sep_notin_split_on: "l \<in> set (split_on sep s) \<Longrightarrow> sep \<notin> set l"
proof (induction s arbitrary: l)
  case Nil then show ?case by simp
next
  case (Cons c cs)
  then show ?case by (auto split: if_splits list.splits)
qed

lemma set_join: "set (join sep ls) \<subseteq> set sep \<union> \<Union> (set ` set ls)"
  by (induction sep ls rule: join.induct) auto

section \<open>The chunker\<close>

lemma length_split_ws_space:
  "is_space c \<Longrightarrow> length (split_ws cur (a @ c # b)) = length (split_ws cur a) + length (split_ws [] b)"
  by (induction a arbitrary: cur) auto

lemma count_tokens_join:
  "count_tokens (a @ ''\<newline>'' @ e) = count_tokens a + count_tokens e"
  using length_split_ws_space [OF is_space_newline, of "[]" a e]
  by (simp add: count_tokens_def)

lemma count_tokens_Nil: "count_tokens [] = 0"
  by (simp add: count_tokens_def)

lemma batch_loop_invariant:
  "batch_loop limit (bs, cur) xs = (bs', cur') \<Longrightarrow>
   \<forall>b\<in>set bs. within_limit children limit b \<Longrightarrow>
   cur = [] \<or> count_tokens cur \<le> limit \<Longrightarrow>
   set xs \<subseteq> set children \<Longrightarrow>
   (\<forall>b\<in>set bs'. within_limit children limit b) \<and> (cur' = [] \<or> count_tokens cur' \<le> limit)"
proof (induction xs arbitrary: bs cur)
  case Nil
  then show ?case by simp
next
  case (Cons x xs)
  let ?e = "strip x"
  have xin: "?e \<in> strip ` set children" using Cons.prems(4) by auto
  have sub: "set xs \<subseteq> set children" using Cons.prems(4) by auto
  show ?case
  proof (cases "?e = []")
    case True
    with Cons.prems have "batch_loop limit (bs, cur) xs = (bs', cur')" by simp
    from Cons.IH [OF this Cons.prems(2) Cons.prems(3) sub] show ?thesis .
  next
    case ne: False
    show ?thesis
    proof (cases "limit < count_tokens ?e")
      case big: True
      have good: "within_limit children limit ?e"
        using xin big by (simp add: within_limit_def)
      show ?thesis
      proof (cases "cur = []")
        case True
        with Cons.prems(1) ne big
        have run: "batch_loop limit (bs @ [?e], []) xs = (bs', cur')" by (simp add: Let_def)
        have "\<forall>b\<in>set (bs @ [?e]). within_limit children limit b"
          using Cons.prems(2) good by auto
        from Cons.IH [OF run this _ sub] show ?thesis by simp
      next
        case False
        with Cons.prems(1) ne big
        have run: "batch_loop limit (bs @ [cur] @ [?e], []) xs = (bs', cur')" by (simp add: Let_def)
        have "within_limit children limit cur"
          using False Cons.prems(3) by (simp add: within_limit_def)
        then have "\<forall>b\<in>set (bs @ [cur] @ [?e]). within_limit children limit b"
          using Cons.prems(2) good by auto
        from Cons.IH [OF run this _ sub] show ?thesis by simp
      qed
    next
      case small: False
      show ?thesis
      proof (cases "count_tokens cur + count_tokens ?e \<le> limit")
        case True
        with Cons.prems(1) ne small
        have run: "batch_loop limit (bs, cur @ ''\<newline>'' @ ?e) xs = (bs', cur')"
          by (simp add: Let_def)
        have "count_tokens (cur @ ''\<newline>'' @ ?e) \<le> limit"
          using True by (simp only: count_tokens_join)
        then have "cur @ ''\<newline>'' @ ?e = [] \<or> count_tokens (cur @ ''\<newline>'' @ ?e) \<le> limit"
          by blast
        from Cons.IH [OF run Cons.prems(2) this sub] show ?thesis .
      next
        case False
        with Cons.prems(1) ne small
        have run: "batch_loop limit (bs @ [cur], ?e) xs = (bs', cur')"
          by (simp add: Let_def)
        have "cur \<noteq> []" using False small by (auto simp: count_tokens_Nil)
        then have "within_limit children limit cur"
          using Cons.prems(3) by (simp add: within_limit_def)
        then have a: "\<forall>b\<in>set (bs @ [cur]). within_limit children limit b"
          using Cons.prems(2) by auto
        have b: "?e = [] \<or> count_tokens ?e \<le> limit" using small by simp
        from Cons.IH [OF run a b sub] show ?thesis .
      qed
    qed
  qed
qed

lemma batch_loop_append:
  "batch_loop limit st (xs @ ys) = batch_loop limit (batch_loop limit st xs) ys"
proof (induction xs arbitrary: st)
  case Nil
  show ?case by (cases st) simp
next
  case (Cons x xs)
  obtain bs cur where st: "st = (bs, cur)" by (cases st)
  show ?case unfolding st by (simp add: Let_def Cons.IH)
qed

lemma batch_loop_prefix:
  "batch_loop limit (bs0 @ bs, cur) xs =
     (bs0 @ fst (batch_loop limit (bs, cur) xs), snd (batch_loop limit (bs, cur) xs))"
proof (induction xs arbitrary: bs cur)
  case Nil
  show ?case by simp
next
  case (Cons x xs)
  show ?case
    using Cons.IH [of bs cur] Cons.IH [of "bs @ [strip x]" "[]"]
      Cons.IH [of "bs @ [cur] @ [strip x]" "[]"] Cons.IH [of bs "cur @ ''\<newline>'' @ strip x"]
      Cons.IH [of "bs @ [cur]" "strip x"]
    by (simp add: Let_def)
qed

lemma batches_of_oversized:
  assumes "strip e \<noteq> []" "limit < count_tokens (strip e)"
  shows "batches_of (pre @ e # post) limit = batches_of pre limit @ [strip e] @ batches_of post limit"
proof -
  obtain bs cur where pre: "batch_loop limit ([], []) pre = (bs, cur)"
    by (cases "batch_loop limit ([], []) pre")
  obtain bs2 cur2 where post: "batch_loop limit ([], []) post = (bs2, cur2)"
    by (cases "batch_loop limit ([], []) post")
  let ?flush = "if cur \<noteq> [] then bs @ [cur] else bs"
  have step: "batch_loop limit (bs, cur) (e # post) = batch_loop limit (?flush @ [strip e], []) post"
    using assms by (simp add: Let_def)
  have "batch_loop limit ([], []) (pre @ e # post) = batch_loop limit ((?flush @ [strip e]) @ [], []) post"
    using step by (simp add: batch_loop_append pre)
  also have "\<dots> = ((?flush @ [strip e]) @ bs2, cur2)"
    by (simp only: batch_loop_prefix post fst_conv snd_conv)
  finally show ?thesis
    by (simp add: batches_of_def pre post)
qed

text \<open>
  C8. Every chunk is the wrapping of a batch whose count of whitespace-separated units is
  at most the limit, unless the batch is one child on its own (stripped, not truncated)
  whose count exceeds the limit. A child whose count exceeds the limit splits the run:
  the chunks are those of the children before it (with their pending batch flushed),
  then the child alone, then those of the children after it.
\<close>

theorem chunk_size_invariant:
  "(\<forall>c\<in>set (batch_html_by_tokens children token_limit).
      \<exists>b. c = wrap_batch b \<and>
        (count_tokens b \<le> token_limit \<or>
         (b \<in> strip ` set children \<and> token_limit < count_tokens b))) \<and>
   (\<forall>pre e post. children = pre @ e # post \<and> strip e \<noteq> [] \<and>
        token_limit < count_tokens (strip e) \<longrightarrow>
      batch_html_by_tokens children token_limit =
        batch_html_by_tokens pre token_limit @ [wrap_batch (strip e)] @
        batch_html_by_tokens post token_limit)"
proof (intro conjI ballI allI impI)
  fix c assume c: "c \<in> set (batch_html_by_tokens children token_limit)"
  obtain bs cur where run: "batch_loop token_limit ([], []) children = (bs, cur)"
    by (cases "batch_loop token_limit ([], []) children")
  have inv: "(\<forall>b\<in>set bs. within_limit children token_limit b) \<and> (cur = [] \<or> count_tokens cur \<le> token_limit)"
    by (rule batch_loop_invariant [OF run]) simp_all
  then have "\<forall>b\<in>set (batches_of children token_limit). within_limit children token_limit b"
    by (auto simp: batches_of_def run within_limit_def)
  with c show "\<exists>b. c = wrap_batch b \<and>
        (count_tokens b \<le> token_limit \<or>
         (b \<in> strip ` set children \<and> token_limit < count_tokens b))"
    by (auto simp: batch_html_by_tokens_def within_limit_def)
next
  fix pre e post
  assume "children = pre @ e # post \<and> strip e \<noteq> [] \<and> token_limit < count_tokens (strip e)"
  then show "batch_html_by_tokens children token_limit =
        batch_html_by_tokens pre token_limit @ [wrap_batch (strip e)] @
        batch_html_by_tokens post token_limit"
    by (simp add: batch_html_by_tokens_def batches_of_oversized)
qed

theorem chunk_size_invariant_witness:
  "batch_html_by_tokens [''<p>a</p>'', ''<p>b c d</p>'', ''<p>e</p>''] 2 =
     [wrap_batch ''\<newline><p>a</p>'', wrap_batch ''<p>b c d</p>'', wrap_batch ''\<newline><p>e</p>''] \<and>
   count_tokens ''\<newline><p>a</p>'' \<le> 2 \<and> 2 < count_tokens ''<p>b c d</p>'' \<and>
   batch_html_by_tokens [''<p>a</p>'', ''<p>b c d</p>'', ''<p>e</p>''] 2 =
     batch_html_by_tokens [''<p>a</p>''] 2 @ [wrap_batch (strip ''<p>b c d</p>'')] @
     batch_html_by_tokens [''<p>e</p>''] 2"
proof -
  have a: "strip ''<p>b c d</p>'' \<noteq> []" by code_simp
  have b: "2 < count_tokens (strip ''<p>b c d</p>'')" by code_simp
  have c: "[''<p>a</p>'', ''<p>b c d</p>'', ''<p>e</p>''] = [''<p>a</p>''] @ ''<p>b c d</p>'' # [''<p>e</p>'']" by simp
  have d: "batch_html_by_tokens [''<p>a</p>'', ''<p>b c d</p>'', ''<p>e</p>''] 2 =
     [wrap_batch ''\<newline><p>a</p>'', wrap_batch ''<p>b c d</p>'', wrap_batch ''\<newline><p>e</p>'']" by code_simp
  have e: "count_tokens ''\<newline><p>a</p>'' \<le> 2" by code_simp
  have f: "2 < count_tokens ''<p>b c d</p>''" by code_simp
  from chunk_size_invariant [of "[''<p>a</p>'', ''<p>b c d</p>'', ''<p>e</p>'']" 2] a b c
  have "batch_html_by_tokens [''<p>a</p>'', ''<p>b c d</p>'', ''<p>e</p>''] 2 =
     batch_html_by_tokens [''<p>a</p>''] 2 @ [wrap_batch (strip ''<p>b c d</p>'')] @
     batch_html_by_tokens [''<p>e</p>''] 2" by blast
  with d e f show ?thesis by blast
qed

section \<open>Include lines and accessors\<close>

lemma length_include: "length ''include'' = 7" by simp
lemma length_PageObject: "length ''PageObject'' = 10" by simp

lemma include_re_unfold:
  "include_re s = (take 7 (dropWhile is_space s) = ''include'' \<and>
      drop 7 (dropWhile is_space s) \<noteq> [] \<and> is_space (hd (drop 7 (dropWhile is_space s))) \<and>
      take 10 (dropWhile is_space (drop 7 (dropWhile is_space s))) = ''PageObject'' \<and>
      dropWhile is_space (drop 10 (dropWhile is_space (drop 7 (dropWhile is_space s)))) = [])"
  unfolding include_re_def startswith_def Let_def
  by (simp only: length_include length_PageObject)

lemma keyword_heads:
  "kw \<in> set accessor_keywords \<Longrightarrow> 2 \<le> length kw \<and> take 2 kw \<noteq> ''in''"
  unfolding accessor_keywords_def by auto

lemma accessor_pattern_keyword:
  "accessor_pattern s \<Longrightarrow>
     \<exists>kw rest. kw \<in> set accessor_keywords \<and> dropWhile is_space s = kw @ rest"
proof -
  assume a: "accessor_pattern s"
  define r where "r = dropWhile is_space s"
  from a obtain kw where kw: "kw \<in> set accessor_keywords" and t: "take (length kw) r = kw"
    unfolding accessor_pattern_def startswith_def Let_def list_ex_iff r_def by blast
  have r: "r = kw @ drop (length kw) r"
    by (rule append_take_drop_id [of "length kw" r, unfolded t, symmetric])
  with kw show ?thesis unfolding r_def by blast
qed

lemma include_not_accessor: "include_re s \<Longrightarrow> \<not> accessor_pattern s"
proof
  assume i: "include_re s" and a: "accessor_pattern s"
  define r where "r = dropWhile is_space s"
  from i have t: "take 7 r = ''include''" unfolding include_re_unfold r_def by blast
  have "take 2 (take 7 r) = take 2 r" by (simp only: take_take) simp
  then have t2: "take 2 r = ''in''" unfolding t by simp
  from accessor_pattern_keyword [OF a] obtain kw rest
    where kw: "kw \<in> set accessor_keywords" and e: "r = kw @ rest" unfolding r_def by blast
  from keyword_heads [OF kw] have l: "2 \<le> length kw" and ne: "take 2 kw \<noteq> ''in''" by blast+
  have "take 2 (kw @ rest) = take 2 kw" using l by simp
  then have "take 2 r = take 2 kw" unfolding e .
  with t2 ne show False by simp
qed

subsection \<open>Step 3: the accessor loop\<close>

lemma set_dedup_first [simp]: "set (dedup_first xs) = set xs"
  by (induction xs rule: dedup_first.induct) auto

lemma distinct_dedup_first [simp]: "distinct (dedup_first xs)"
  by (induction xs rule: dedup_first.induct) auto

lemma dedup_first_distinct: "distinct xs \<Longrightarrow> dedup_first xs = xs"
proof (induction xs)
  case Nil then show ?case by simp
next
  case (Cons x xs)
  then have "filter (\<lambda>y. y \<noteq> x) xs = xs" by (auto intro: filter_True)
  with Cons show ?case by simp
qed

lemma accessor_loop_fst:
  "fst (accessor_loop (accessors, set accessors, rest) ls) =
     accessors @ dedup_first (filter (\<lambda>x. x \<notin> set accessors)
                    (map strip (filter (\<lambda>line. accessor_pattern (strip line)) ls)))"
proof (induction ls arbitrary: accessors rest)
  case Nil
  show ?case by simp
next
  case (Cons l ls)
  show ?case
  proof (cases "accessor_pattern (strip l)")
    case False
    then show ?thesis using Cons.IH [of accessors "rest @ [l]"] by simp
  next
    case True
    show ?thesis
    proof (cases "strip l \<in> set accessors")
      case True
      with \<open>accessor_pattern (strip l)\<close> show ?thesis
        using Cons.IH [of accessors rest] by simp
    next
      case False
      let ?T = "map strip (filter (\<lambda>line. accessor_pattern (strip line)) ls)"
      have f: "filter (\<lambda>x. x \<notin> set (accessors @ [strip l])) xs =
               filter (\<lambda>y. y \<noteq> strip l) (filter (\<lambda>x. x \<notin> set accessors) xs)" for xs
        by (induction xs) auto
      have "accessor_loop (accessors, set accessors, rest) (l # ls) =
            accessor_loop (accessors @ [strip l], set (accessors @ [strip l]), rest) ls"
        using False \<open>accessor_pattern (strip l)\<close> by (simp add: Let_def)
      then have "fst (accessor_loop (accessors, set accessors, rest) (l # ls)) =
            (accessors @ [strip l]) @ dedup_first (filter (\<lambda>x. x \<notin> set (accessors @ [strip l])) ?T)"
        by (simp only: Cons.IH [of "accessors @ [strip l]" rest])
      also have "\<dots> = accessors @ strip l #
            dedup_first (filter (\<lambda>y. y \<noteq> strip l) (filter (\<lambda>x. x \<notin> set accessors) ?T))"
        by (simp only: f) simp
      also have "\<dots> = accessors @ dedup_first (filter (\<lambda>x. x \<notin> set accessors)
            (map strip (filter (\<lambda>line. accessor_pattern (strip line)) (l # ls))))"
        using False \<open>accessor_pattern (strip l)\<close> by simp
      finally show ?thesis .
    qed
  qed
qed

lemma accessor_loop_rest:
  "snd (snd (accessor_loop (accessors, seen, rest) ls)) =
     rest @ filter (\<lambda>line. \<not> accessor_pattern (strip line)) ls"
  by (induction ls arbitrary: accessors seen rest) (auto simp: Let_def)

lemma accessors_of_eq:
  "accessors_of ls = dedup_first (map strip (filter (\<lambda>line. accessor_pattern (strip line)) ls))"
  using accessor_loop_fst [of "[]" "[]" ls] by (simp add: accessors_of_def)

lemma lines_after_accessors_of_eq:
  "lines_after_accessors_of ls = filter (\<lambda>line. \<not> accessor_pattern (strip line)) ls"
  by (simp add: lines_after_accessors_of_def accessor_loop_rest)

lemma filter_accessor_after_includes:
  "filter (\<lambda>line. accessor_pattern (strip line)) (tmp_after_includes ls) =
   filter (\<lambda>line. accessor_pattern (strip line)) ls"
  unfolding tmp_after_includes_def filter_filter
  by (rule filter_cong) (auto dest: include_not_accessor)

lemma merge_accessors_eq:
  "merge_accessors code =
     dedup_first (map strip (filter (\<lambda>line. accessor_pattern (strip line)) (content_stream code)))"
  by (simp only: merge_accessors_def accessors_of_eq filter_accessor_after_includes)

lemma merge_accessors_set:
  "set (merge_accessors code) =
     strip ` {line \<in> set (content_stream code). accessor_pattern (strip line)}"
  unfolding merge_accessors_eq by (simp only: set_dedup_first) auto

section \<open>Line endings and the lines of the input\<close>

lemma replace_cr:
  "replace [CHR 0x0D] [CHR 0x0A] (c # cs) =
     (if c = CHR 0x0D then CHR 0x0A else c) # replace [CHR 0x0D] [CHR 0x0A] cs"
  by (simp add: startswith_def)

lemma replace_crlf_pair:
  "replace [CHR 0x0D, CHR 0x0A] [CHR 0x0A] (CHR 0x0D # CHR 0x0A # cs) =
     CHR 0x0A # replace [CHR 0x0D, CHR 0x0A] [CHR 0x0A] cs"
  by (simp add: startswith_def)

lemma replace_crlf_other:
  "\<not> (c = CHR 0x0D \<and> d = CHR 0x0A) \<Longrightarrow>
   replace [CHR 0x0D, CHR 0x0A] [CHR 0x0A] (c # d # cs) =
     c # replace [CHR 0x0D, CHR 0x0A] [CHR 0x0A] (d # cs)"
  by (simp add: startswith_def)

lemma replace_crlf_single:
  "replace [CHR 0x0D, CHR 0x0A] [CHR 0x0A] [c] = [c]"
  by (simp add: startswith_def)

declare replace.simps(2) [simp del]

lemma normalize_newlines_eq: "normalize_newlines s = unix_line_endings s"
proof (induction s rule: unix_line_endings.induct)
  case 1
  show ?case by (simp add: normalize_newlines_def)
next
  case (2 c)
  show ?case by (simp add: normalize_newlines_def replace_crlf_single replace_cr)
next
  case (3 c d cs)
  show ?case
  proof (cases "c = CHR 0x0D \<and> d = CHR 0x0A")
    case True
    then show ?thesis using 3(1)
      by (simp add: normalize_newlines_def replace_crlf_pair replace_cr)
  next
    case False
    then have "normalize_newlines (c # d # cs) =
        (if c = CHR 0x0D then CHR 0x0A else c) # normalize_newlines (d # cs)"
      unfolding normalize_newlines_def
      by (subst replace_crlf_other [OF False]) (rule replace_cr)
    with False 3(2,3) show ?thesis by (auto simp del: unix_line_endings.simps(3)
        simp add: unix_line_endings.simps(3) [of c d cs])
  qed
qed

lemma cr_notin_unix_line_endings: "CHR 0x0D \<notin> set (unix_line_endings s)"
  by (induction s rule: unix_line_endings.induct) auto

lemma unix_line_endings_id: "CHR 0x0D \<notin> set s \<Longrightarrow> unix_line_endings s = s"
  by (induction s rule: unix_line_endings.induct) auto

lemma unix_line_endings_idem: "unix_line_endings (unix_line_endings s) = unix_line_endings s"
  by (rule unix_line_endings_id) (rule cr_notin_unix_line_endings)

lemma code_lines_unix: "code_lines (unix_line_endings s) = code_lines s"
  by (simp only: code_lines_def normalize_newlines_eq unix_line_endings_idem)

lemma code_lines_no_cr: "l \<in> set (code_lines s) \<Longrightarrow> CHR 0x0D \<notin> set l"
  unfolding code_lines_def normalize_newlines_eq
  using set_split_on [of l "CHR 0x0A" "unix_line_endings s"] cr_notin_unix_line_endings [of s]
  by blast

lemma code_lines_no_lf: "l \<in> set (code_lines s) \<Longrightarrow> CHR 0x0A \<notin> set l"
  unfolding code_lines_def by (rule sep_notin_split_on)

lemma code_lines_not_Nil: "code_lines s \<noteq> []"
  unfolding code_lines_def by simp

text \<open>A text without line breaks in its lines is split back into them.\<close>

lemma code_lines_join:
  assumes "ls \<noteq> []" "\<forall>l\<in>set ls. CHR 0x0A \<notin> set l \<and> CHR 0x0D \<notin> set l"
  shows "code_lines (join ''\<newline>'' ls) = ls"
proof -
  have "set (join ''\<newline>'' ls) \<subseteq> set ''\<newline>'' \<union> \<Union> (set ` set ls)" by (rule set_join)
  then have "CHR 0x0D \<notin> set (join ''\<newline>'' ls)" using assms(2) by auto
  then have "normalize_newlines (join ''\<newline>'' ls) = join ''\<newline>'' ls"
    unfolding normalize_newlines_eq by (rule unix_line_endings_id)
  then show ?thesis
    unfolding code_lines_def using split_on_join [of ls "CHR 0x0A"] assms by simp
qed

section \<open>The method scanner and the unification of blocks\<close>

subsection \<open>Invariants of the method scanner\<close>

lemma methods_inv_file_block:
  "methods_inv Q m \<Longrightarrow> block \<noteq> [] \<Longrightarrow> list_all Q block \<Longrightarrow>
   methods_inv Q (file_block name block m)"
  by (induction m) (auto simp: methods_inv_def)

lemma scan_inv_flush:
  "scan_inv Q st \<Longrightarrow> scan_inv Q (flush_method st)"
  by (auto simp: scan_inv_def flush_method_def Let_def methods_inv_file_block split: option.splits)

lemma flush_method_fields [simp]:
  "leftover (flush_method st) = leftover st"
  "in_method (flush_method st) = in_method st"
  "current_method_name (flush_method st) = None"
  "current_method_lines (flush_method st) = []"
  by (auto simp: flush_method_def Let_def split: option.splits)

lemma scan_inv_line:
  assumes "scan_inv Q st" "Q line"
  shows "scan_inv Q (scan_line st line)"
proof -
  have a: "scan_inv Q (flush_method (st\<lparr>in_method := True\<rparr>))"
    using assms(1) by (intro scan_inv_flush) (simp add: scan_inv_def)
  have b: "scan_inv Q (flush_method (st\<lparr>current_method_lines := current_method_lines st @ [line]\<rparr>))"
    using assms by (intro scan_inv_flush) (simp add: scan_inv_def)
  show ?thesis
    using assms a b unfolding scan_line_def
    by (auto simp: scan_inv_def split: option.splits)
qed

lemma scan_inv_loop:
  "scan_inv Q st \<Longrightarrow> list_all Q ls \<Longrightarrow> scan_inv Q (scan_loop st ls)"
  by (induction ls arbitrary: st) (auto simp: scan_inv_line)

lemma scan_inv_init: "scan_inv Q scan_init"
  by (simp add: scan_inv_def scan_init_def methods_inv_def)

lemma scan_inv_extract:
  "list_all Q ls \<Longrightarrow> scan_inv Q (extract_methods ls)"
  unfolding extract_methods_def Let_def
  using scan_inv_loop [OF scan_inv_init, of Q ls] by (auto intro: scan_inv_flush)

subsection \<open>Step 5 on the filed blocks\<close>

lemma final_method_lines_eq:
  "first_block \<noteq> [] \<Longrightarrow>
   final_method_lines first_block others = Inr (merged_definition (first_block # others))"
  by (cases first_block) (auto simp: final_method_lines_def merged_definition_def Let_def)

lemma merge_loop_eq:
  "methods_inv Q m \<Longrightarrow>
   merge_loop m = Inr (map (\<lambda>(name, blocks). join ''\<newline>'' (merged_definition blocks)) m)"
proof (induction m)
  case Nil
  show ?case by simp
next
  case (Cons e m)
  obtain name blocks where e: "e = (name, blocks)" by (cases e)
  from Cons.prems e obtain first_block others where b: "blocks = first_block # others"
    and ne: "first_block \<noteq> []" and rest: "methods_inv Q m"
    by (cases blocks) (auto simp: methods_inv_def)
  show ?case
    unfolding e b using Cons.IH [OF rest] by (simp add: final_method_lines_eq [OF ne])
qed

lemma merged_definition_not_Nil [simp]: "merged_definition blocks \<noteq> []"
  by (simp add: merged_definition_def)

lemma inner_lines_subset: "set (inner_lines b) \<subseteq> set b"
proof -
  have "set (butlast (tl b)) \<subseteq> set (tl b)" by (auto dest: in_set_butlastD)
  also have "\<dots> \<subseteq> set b" by (cases b) auto
  finally show ?thesis by (simp add: inner_lines_def)
qed

lemma merged_definition_lines:
  assumes "list_all (\<lambda>b. b \<noteq> [] \<and> list_all Q b) blocks" "blocks \<noteq> []"
      "Q separator" "Q ''end''"
  shows "list_all Q (merged_definition blocks)"
proof -
  obtain b others where bo: "blocks = b # others" using assms(2) by (cases blocks) auto
  have qb: "\<forall>l\<in>set b. Q l" and ne: "b \<noteq> []" and qo: "\<forall>ob\<in>set others. \<forall>l\<in>set ob. Q l"
    using assms(1) by (auto simp: bo list_all_iff)
  have 1: "\<forall>l\<in>set (take 1 b). Q l" using qb by (auto dest: in_set_takeD)
  have 2: "\<forall>l\<in>set (inner_lines b). Q l" using qb inner_lines_subset [of b] by blast
  have 3: "\<forall>l\<in>set (concat (map (\<lambda>b. separator # inner_lines b) others)). Q l"
  proof
    fix l assume "l \<in> set (concat (map (\<lambda>b. separator # inner_lines b) others))"
    then obtain ob where ob: "ob \<in> set others" and l: "l = separator \<or> l \<in> set (inner_lines ob)"
      unfolding set_concat by (auto simp del: UN_simps)
    from l show "Q l"
    proof
      assume "l = separator" then show ?thesis using assms(3) by simp
    next
      assume "l \<in> set (inner_lines ob)"
      then have "l \<in> set ob" using inner_lines_subset [of ob] by blast
      then show ?thesis using qo ob by blast
    qed
  qed
  have 4: "Q (last b)" using qb ne by simp
  show ?thesis
    unfolding merged_definition_def bo list_all_iff using 1 2 3 4 assms(4) by auto
qed

section \<open>The pass as a whole\<close>

lemma set_flatten_loop_subset: "set (flatten_loop n ls) \<subseteq> set ls"
  by (induction ls arbitrary: n) (auto simp: Let_def)

lemma set_flattened_lines_subset: "set (flattened_lines ls) \<subseteq> set ls"
  using set_flatten_loop_subset [of 0 ls] by (auto simp: flattened_lines_def Let_def)

lemma content_stream_lines: "l \<in> set (content_stream code) \<Longrightarrow> l \<in> set (code_lines code)"
  using set_flattened_lines_subset [of "code_lines code"] by (auto simp: content_stream_def)

lemma scan_inv_merge_scan:
  assumes "\<And>l. l \<in> set (content_stream code) \<Longrightarrow> \<not> include_re (strip l) \<Longrightarrow>
             \<not> accessor_pattern (strip l) \<Longrightarrow> Q l"
  shows "scan_inv Q (merge_scan code)"
  unfolding merge_scan_def
  by (rule scan_inv_extract)
     (auto simp: list_all_iff lines_after_accessors_of_eq tmp_after_includes_def intro: assms)

lemma beautify_ruby_class_eq:
  "beautify_ruby_class code name =
     Inr (join ''\<newline>''
       (final_lines name (merge_include code) (merge_accessors code)
          (map (\<lambda>(name, blocks). join ''\<newline>'' (merged_definition blocks))
               (methods_extracted (merge_scan code)))
          (leftover (merge_scan code))))"
proof -
  have "scan_inv (\<lambda>l. True) (merge_scan code)" by (rule scan_inv_merge_scan) simp
  then have "methods_inv (\<lambda>l. True) (methods_extracted (merge_scan code))"
    by (simp add: scan_inv_def)
  from merge_loop_eq [OF this] show ?thesis
    by (simp add: beautify_ruby_class_def beautify_lines_def Let_def merge_scan_def
        merge_include_def merge_accessors_def content_stream_def)
qed


text \<open>When no stored line has a line feed, the lines of the method section are the lines
  of the merged definitions, indented, each definition followed by an empty line.\<close>

lemma method_section_eq:
  assumes "methods_inv (\<lambda>l. CHR 0x0A \<notin> set l) m"
  shows "method_section (map (\<lambda>(name, blocks). join ''\<newline>'' (merged_definition blocks)) m) =
         concat (map (\<lambda>(name, blocks). map (\<lambda>line. ''  '' @ line) (merged_definition blocks) @ [[]]) m)"
proof -
  have "split_on (CHR 0x0A) (join ''\<newline>'' (merged_definition blocks)) = merged_definition blocks"
    if "(name, blocks) \<in> set m" for name blocks
  proof -
    from that assms have b: "list_all (\<lambda>b. b \<noteq> [] \<and> list_all (\<lambda>l. CHR 0x0A \<notin> set l) b) blocks"
      and ne: "blocks \<noteq> []"
      by (auto simp: methods_inv_def list_all_iff)
    have "list_all (\<lambda>l. CHR 0x0A \<notin> set l) (merged_definition blocks)"
      by (rule merged_definition_lines [OF b ne]) (simp_all add: separator_def)
    then show ?thesis
      using split_on_join [of "merged_definition blocks" "CHR 0x0A"]
      by (simp add: list_all_iff)
  qed
  then show ?thesis
    unfolding method_section_def map_map
    by (intro arg_cong [where f = concat] map_cong) auto
qed

lemma method_section_member:
  "l \<in> set (method_section merged) \<Longrightarrow>
     l = [] \<or> (\<exists>md\<in>set merged. \<exists>x\<in>set (split_on (CHR 0x0A) md). l = ''  '' @ x)"
  by (induction merged) (auto simp: method_section_def)


section \<open>Captures of the method scanner\<close>

lemma scan_loop_append:
  "scan_loop st (xs @ ys) = scan_loop (scan_loop st xs) ys"
  by (induction xs arbitrary: st) auto

lemma scan_line_inside:
  "in_method st \<Longrightarrow> \<not> end_pattern line \<Longrightarrow>
   scan_line st line = st\<lparr>current_method_lines := current_method_lines st @ [line]\<rparr>"
  by (simp add: scan_line_def)

lemma scan_line_close:
  "in_method st \<Longrightarrow> end_pattern line \<Longrightarrow> current_method_name st = Some name \<Longrightarrow>
   scan_line st line =
     st\<lparr>methods_extracted :=
          file_block name (current_method_lines st @ [line]) (methods_extracted st),
        in_method := False, current_method_name := None, current_method_lines := []\<rparr>"
  by (simp add: scan_line_def flush_method_def Let_def)

lemma scan_loop_inside:
  "in_method st \<Longrightarrow> \<forall>l\<in>set body. \<not> end_pattern l \<Longrightarrow>
   scan_loop st body = st\<lparr>current_method_lines := current_method_lines st @ body\<rparr>"
proof (induction body arbitrary: st)
  case Nil
  show ?case by simp
next
  case (Cons l body)
  have "scan_loop st (l # body) =
        scan_loop (st\<lparr>current_method_lines := current_method_lines st @ [l]\<rparr>) body"
    using Cons.prems by (simp add: scan_line_inside)
  also have "\<dots> = st\<lparr>current_method_lines := current_method_lines st @ [l]\<rparr>
        \<lparr>current_method_lines := (current_method_lines st @ [l]) @ body\<rparr>"
    using Cons.prems by (subst Cons.IH) simp_all
  finally show ?case by simp
qed

text \<open>
  C3, as the code has it. While a capture is open, a line whose stripped text is
  \<open>end\<close> (the end pattern allows whitespace on both sides, so an indented \<open>end\<close>
  too) is appended and closes the capture, filing the whole span under the captured name;
  every other line is appended and leaves the capture open.
\<close>

theorem capture_closed_by_end_line:
  "in_method st \<and> current_method_name st = Some name \<and> (\<forall>l\<in>set body. strip l \<noteq> ''end'') \<longrightarrow>
     scan_loop st body = st\<lparr>current_method_lines := current_method_lines st @ body\<rparr> \<and>
     (strip e = ''end'' \<longrightarrow>
        scan_loop st (body @ [e]) =
          st\<lparr>methods_extracted :=
               file_block name (current_method_lines st @ body @ [e]) (methods_extracted st),
             in_method := False, current_method_name := None, current_method_lines := []\<rparr>)"
proof (intro impI conjI)
  assume a: "in_method st \<and> current_method_name st = Some name \<and> (\<forall>l\<in>set body. strip l \<noteq> ''end'')"
  then have b: "\<forall>l\<in>set body. \<not> end_pattern l" by (simp add: end_pattern_iff)
  show open_: "scan_loop st body = st\<lparr>current_method_lines := current_method_lines st @ body\<rparr>"
    using a b by (intro scan_loop_inside) simp_all
  assume "strip e = ''end''"
  then have e: "end_pattern e" by (simp add: end_pattern_iff)
  have "scan_loop st (body @ [e]) = scan_line (scan_loop st body) e"
    by (simp add: scan_loop_append)
  also have "\<dots> = scan_line (st\<lparr>current_method_lines := current_method_lines st @ body\<rparr>) e"
    by (simp only: open_)
  also have "\<dots> = st\<lparr>methods_extracted :=
               file_block name (current_method_lines st @ body @ [e]) (methods_extracted st),
             in_method := False, current_method_name := None, current_method_lines := []\<rparr>"
    using a e by (subst scan_line_close [where name = name]) simp_all
  finally show "scan_loop st (body @ [e]) =
          st\<lparr>methods_extracted :=
               file_block name (current_method_lines st @ body @ [e]) (methods_extracted st),
             in_method := False, current_method_name := None, current_method_lines := []\<rparr>" .
qed

lemma scan_def_go:
  "scan_loop scan_init [''def go''] =
     \<lparr>methods_extracted = [], leftover = [], in_method = True,
      current_method_name = Some ''go'', current_method_lines = [''def go'']\<rparr>"
  by code_simp

theorem capture_closed_by_end_line_witness:
  "scan_loop scan_init ([''def go''] @ [''  click'', ''endure'', ''  def x''] @ [''  end '']) =
     \<lparr>methods_extracted =
        [(''go'', [[''def go'', ''  click'', ''endure'', ''  def x'', ''  end '']])],
      leftover = [], in_method = False,
      current_method_name = None, current_method_lines = []\<rparr>"
proof -
  let ?st = "scan_loop scan_init [''def go'']"
  have 1: "in_method ?st \<and> current_method_name ?st = Some ''go'' \<and>
           (\<forall>l\<in>set [''  click'', ''endure'', ''  def x'']. strip l \<noteq> ''end'')"
    by code_simp
  have 2: "strip ''  end '' = ''end''" by code_simp
  from capture_closed_by_end_line [of ?st "''go''" "[''  click'', ''endure'', ''  def x'']" "''  end ''"] 1 2
  have "scan_loop ?st ([''  click'', ''endure'', ''  def x''] @ [''  end '']) =
          ?st\<lparr>methods_extracted :=
               file_block ''go'' (current_method_lines ?st @ [''  click'', ''endure'', ''  def x''] @ [''  end ''])
                  (methods_extracted ?st),
             in_method := False, current_method_name := None, current_method_lines := []\<rparr>"
    by blast
  then show ?thesis
    unfolding scan_loop_append scan_def_go by simp
qed

text \<open>An indented \<open>end\<close> is not the line \<open>end\<close>, and it closes the capture.\<close>

theorem indented_end_closes_capture:
  "''  end'' \<noteq> ''end'' \<and>
   in_method (scan_loop scan_init [''def go'', ''click'']) \<and>
   \<not> in_method (scan_loop scan_init [''def go'', ''click'', ''  end'']) \<and>
   extract_methods [''def go'', ''click'', ''  end'', ''after''] =
     \<lparr>methods_extracted = [(''go'', [[''def go'', ''click'', ''  end'']])],
      leftover = [''after''], in_method = False,
      current_method_name = None, current_method_lines = []\<rparr>"
  by code_simp

section \<open>Filing order and the merged definitions\<close>












section \<open>Totality and unterminated captures\<close>

lemma scan_loop_outside:
  "\<not> in_method st \<Longrightarrow> \<forall>l\<in>set pre. def_pattern l = None \<Longrightarrow>
   scan_loop st pre = st\<lparr>leftover := leftover st @ pre\<rparr>"
proof (induction pre arbitrary: st)
  case Nil
  show ?case by simp
next
  case (Cons l pre)
  have "scan_loop st (l # pre) = scan_loop (st\<lparr>leftover := leftover st @ [l]\<rparr>) pre"
    using Cons.prems by (simp add: scan_line_def)
  also have "\<dots> = st\<lparr>leftover := leftover st @ [l]\<rparr>\<lparr>leftover := (leftover st @ [l]) @ pre\<rparr>"
    using Cons.prems by (subst Cons.IH) simp_all
  finally show ?case by simp
qed

lemma scan_line_open:
  "\<not> in_method st \<Longrightarrow> current_method_name st = None \<Longrightarrow> def_pattern line = Some name \<Longrightarrow>
   scan_line st line =
     st\<lparr>in_method := True, current_method_name := Some name, current_method_lines := [line]\<rparr>"
  by (simp add: scan_line_def flush_method_def Let_def)

lemma extract_methods_unterminated:
  assumes "\<forall>l\<in>set pre. def_pattern l = None" "def_pattern line = Some name"
      "\<forall>l\<in>set body. \<not> end_pattern l"
  shows "extract_methods (pre @ line # body) =
     \<lparr>methods_extracted = [(name, [line # body])], leftover = pre, in_method = True,
      current_method_name = None, current_method_lines = []\<rparr>"
proof -
  let ?s1 = "scan_init\<lparr>leftover := pre\<rparr>"
  let ?s2 = "?s1\<lparr>in_method := True, current_method_name := Some name, current_method_lines := [line]\<rparr>"
  have 1: "scan_loop scan_init pre = ?s1"
    using assms(1) by (subst scan_loop_outside) (simp_all add: scan_init_def)
  have 2: "scan_line ?s1 line = ?s2"
    using assms(2) by (intro scan_line_open) (simp_all add: scan_init_def)
  have 3: "scan_loop ?s2 body = ?s2\<lparr>current_method_lines := current_method_lines ?s2 @ body\<rparr>"
    using assms(3) by (intro scan_loop_inside) simp_all
  have "scan_loop scan_init (pre @ line # body) = scan_loop ?s2 body"
    by (simp add: scan_loop_append 1 2)
  then have "scan_loop scan_init (pre @ line # body) =
     \<lparr>methods_extracted = [], leftover = pre, in_method = True,
      current_method_name = Some name, current_method_lines = line # body\<rparr>"
    unfolding 3 by (simp add: scan_init_def)
  then show ?thesis
    by (simp add: extract_methods_def flush_method_def Let_def)
qed









section \<open>No retained line is lost\<close>

lemma flatten_loop_not_end:
  "l \<in> set (flatten_loop n ls) \<Longrightarrow> strip l \<noteq> ''end'' \<and> \<not> startswith ''class '' (strip l)"
  by (induction ls arbitrary: n) (auto simp: Let_def split: if_splits)

lemma retained_partition:
  "mset R = mset (directive_lines R) + mset (accessor_lines R) +
            mset (captured_lines R) + mset (leftover_lines R)"
proof -
  have "mset R = mset (filter (\<lambda>l. include_re (strip l)) R) +
                 mset (filter (\<lambda>l. \<not> include_re (strip l)) R)"
    by simp
  also have "mset (filter (\<lambda>l. \<not> include_re (strip l)) R) =
             mset (accessor_lines R) + mset (other_lines R)"
    unfolding accessor_lines_def other_lines_def
    by (induction R) auto
  also have "mset (other_lines R) = mset (leftover_lines R @ captured_lines R)"
    unfolding leftover_lines_def captured_lines_def by simp
  finally show ?thesis by (simp add: directive_lines_def ac_simps)
qed

lemma other_lines_eq:
  "lines_after_accessors_of (tmp_after_includes R) = other_lines R"
  by (simp add: lines_after_accessors_of_eq tmp_after_includes_def other_lines_def conj_commute)

lemma accessor_lines_eq:
  "accessor_lines R = filter (\<lambda>l. accessor_pattern (strip l)) R"
  unfolding accessor_lines_def by (rule filter_cong) (auto dest: include_not_accessor)

lemma extract_methods_no_end:
  assumes "\<forall>l\<in>set ls. \<not> end_pattern l"
  shows "methods_extracted (extract_methods ls) =
           (case dropWhile (\<lambda>l. def_pattern l = None) ls of
              [] \<Rightarrow> []
            | line # body \<Rightarrow> [(the (def_pattern line), [line # body])]) \<and>
         leftover (extract_methods ls) = takeWhile (\<lambda>l. def_pattern l = None) ls"
proof (cases "dropWhile (\<lambda>l. def_pattern l = None) ls")
  case Nil
  then have a: "\<forall>l\<in>set ls. def_pattern l = None" by simp
  then have t: "takeWhile (\<lambda>l. def_pattern l = None) ls = ls" by simp
  have "scan_loop scan_init ls = scan_init\<lparr>leftover := leftover scan_init @ ls\<rparr>"
    using a by (intro scan_loop_outside) (simp_all add: scan_init_def)
  then show ?thesis
    unfolding Nil t by (simp add: extract_methods_def scan_init_def)
next
  case (Cons line body)
  let ?pre = "takeWhile (\<lambda>l. def_pattern l = None) ls"
  have ls: "ls = ?pre @ line # body"
    using takeWhile_dropWhile_id [of "\<lambda>l. def_pattern l = None" ls] Cons by simp
  have 1: "\<forall>l\<in>set ?pre. def_pattern l = None" by (auto dest: set_takeWhileD)
  have "line = hd (dropWhile (\<lambda>l. def_pattern l = None) ls)" using Cons by simp
  then have "def_pattern line \<noteq> None"
    using hd_dropWhile [of "\<lambda>l. def_pattern l = None" ls] Cons by simp
  then obtain name where 2: "def_pattern line = Some name" by auto
  have "set body \<subseteq> set ls" using ls by (metis set_subset_Cons set_append Un_upper2 subset_trans)
  then have 3: "\<forall>l\<in>set body. \<not> end_pattern l" using assms by blast
  have "extract_methods (?pre @ line # body) =
     \<lparr>methods_extracted = [(name, [line # body])], leftover = ?pre, in_method = True,
      current_method_name = None, current_method_lines = []\<rparr>"
    by (rule extract_methods_unterminated [OF 1 2 3])
  then have "extract_methods ls =
     \<lparr>methods_extracted = [(name, [line # body])], leftover = ?pre, in_method = True,
      current_method_name = None, current_method_lines = []\<rparr>"
    using ls by simp
  then show ?thesis unfolding Cons by (simp add: 2)
qed

lemma merged_definition_single:
  "blk \<noteq> [] \<Longrightarrow>
   merged_definition [blk] = blk @ (if length blk > 1 then [] else [''end''])"
proof -
  assume ne: "blk \<noteq> []"
  then obtain line body where b: "blk = line # body" by (cases blk) auto
  show ?thesis
  proof (cases body rule: rev_cases)
    case Nil
    then show ?thesis by (simp add: b merged_definition_def inner_lines_def)
  next
    case (snoc ys y)
    then show ?thesis by (simp add: b merged_definition_def inner_lines_def)
  qed
qed

lemma retained_content_stream:
  "flatten_loop 0 (code_lines code) \<noteq> [] \<Longrightarrow>
   content_stream code = flatten_loop 0 (code_lines code)"
  by (simp add: content_stream_def flattened_lines_def Let_def)

lemma merge_include_eq: "merge_include code = (directive_lines (content_stream code) \<noteq> [])"
  by (simp add: merge_include_def includes_found_def directive_lines_def)

lemma retained_scan:
  assumes "R = flatten_loop 0 (code_lines code)" "R \<noteq> []"
  shows "methods_extracted (merge_scan code) =
           (case captured_lines R of
              [] \<Rightarrow> []
            | line # body \<Rightarrow> [(the (def_pattern line), [line # body])])"
    and "leftover (merge_scan code) = leftover_lines R"
proof -
  have cs: "content_stream code = R" using assms by (simp add: retained_content_stream)
  have "\<forall>l\<in>set R. \<not> end_pattern l"
    unfolding assms(1) end_pattern_iff using flatten_loop_not_end by blast
  then have ne: "\<forall>l\<in>set (other_lines R). \<not> end_pattern l" by (simp add: other_lines_def)
  have ms: "merge_scan code = extract_methods (other_lines R)"
    by (simp only: merge_scan_def cs other_lines_eq)
  show "methods_extracted (merge_scan code) =
           (case captured_lines R of
              [] \<Rightarrow> []
            | line # body \<Rightarrow> [(the (def_pattern line), [line # body])])"
    unfolding ms captured_lines_def using extract_methods_no_end [OF ne] by blast
  show "leftover (merge_scan code) = leftover_lines R"
    unfolding ms leftover_lines_def using extract_methods_no_end [OF ne] by blast
qed

lemma retained_method_section:
  assumes "R = flatten_loop 0 (code_lines code)" "R \<noteq> []"
  shows "method_section (map (\<lambda>(name, blocks). join ''\<newline>'' (merged_definition blocks))
                            (methods_extracted (merge_scan code))) =
         (if captured_lines R = [] then []
          else map (\<lambda>l. ''  '' @ l)
                 (captured_lines R @ (if length (captured_lines R) > 1 then [] else [''end''])) @ [[]])"
proof (cases "captured_lines R")
  case Nil
  then show ?thesis unfolding retained_scan(1) [OF assms] by (simp add: method_section_def)
next
  case (Cons line body)
  let ?blk = "captured_lines R"
  let ?md = "?blk @ (if length ?blk > 1 then [] else [''end''])"
  have md: "merged_definition [?blk] = ?md"
    by (rule merged_definition_single) (simp add: Cons)
  have "set ?blk \<subseteq> set (other_lines R)"
    unfolding captured_lines_def by (rule set_dropWhile_subset)
  also have "\<dots> \<subseteq> set R" by (auto simp: other_lines_def)
  also have "\<dots> \<subseteq> set (code_lines code)"
    unfolding assms(1) by (rule set_flatten_loop_subset)
  finally have "\<forall>l\<in>set ?blk. CHR 0x0A \<notin> set l" using code_lines_no_lf by blast
  then have nolf: "\<forall>l\<in>set ?md. CHR 0x0A \<notin> set l" by auto
  have "?md \<noteq> []" by (simp add: Cons)
  then have sp: "split_on (CHR 0x0A) (join ''\<newline>'' ?md) = ?md"
    using nolf split_on_join [of ?md "CHR 0x0A"] by blast
  have "method_section (map (\<lambda>(name, blocks). join ''\<newline>'' (merged_definition blocks))
                            (methods_extracted (merge_scan code))) =
        map (\<lambda>l. ''  '' @ l) (split_on (CHR 0x0A) (join ''\<newline>'' (merged_definition [?blk]))) @ [[]]"
    unfolding retained_scan(1) [OF assms] by (simp add: Cons method_section_def)
  also have "\<dots> = map (\<lambda>l. ''  '' @ l) ?md @ [[]]"
    by (simp only: md sp)
  finally show ?thesis by (simp add: Cons)
qed

text \<open>
  C6. When step 1 retains lines \<open>R\<close> of the input (so the fallback does not run), every
  line of \<open>R\<close> is of exactly one kind (directive, accessor, captured, leftover), and
  the output is built from the four kinds with nothing left out: the directive line when
  there is a directive line in \<open>R\<close>; the stripped accessor lines, each distinct one once;
  the captured lines as they are, as the one merged method (closed by a generated
  \<open>end\<close> when the opening line is alone); and the stripped leftover lines that are
  not blank, under the leftover heading.
\<close>

theorem no_loss_of_retained_lines:
  "R = flatten_loop 0 (code_lines combined_code) \<and> R \<noteq> [] \<longrightarrow>
     mset R = mset (directive_lines R) + mset (accessor_lines R) +
              mset (captured_lines R) + mset (leftover_lines R) \<and>
     beautify_ruby_class combined_code site_name =
       Inr (join ''\<newline>''
         ([''class '' @ site_name, []] @
          (if directive_lines R \<noteq> [] then [''  include PageObject'', []] else []) @
          map (\<lambda>a. ''  '' @ a) (dedup_first (map strip (accessor_lines R))) @ [[]] @
          (if captured_lines R = [] then []
           else map (\<lambda>l. ''  '' @ l)
                  (captured_lines R @ (if length (captured_lines R) > 1 then [] else [''end''])) @
                [[]]) @
          (if filter (\<lambda>l. strip l \<noteq> []) (leftover_lines R) = [] then []
           else leftover_header #
                map (\<lambda>l. ''  '' @ strip l) (filter (\<lambda>l. strip l \<noteq> []) (leftover_lines R))) @
          [''end'']))"
proof (intro impI conjI)
  show "mset R = mset (directive_lines R) + mset (accessor_lines R) +
              mset (captured_lines R) + mset (leftover_lines R)"
    by (rule retained_partition)
next
  assume "R = flatten_loop 0 (code_lines combined_code) \<and> R \<noteq> []"
  then have R: "R = flatten_loop 0 (code_lines combined_code)" and ne: "R \<noteq> []" by blast+
  have cs: "content_stream combined_code = R" using R ne by (simp add: retained_content_stream)
  have inc: "merge_include combined_code = (directive_lines R \<noteq> [])"
    by (simp only: merge_include_eq cs)
  have acc: "merge_accessors combined_code = dedup_first (map strip (accessor_lines R))"
    by (simp only: merge_accessors_eq cs accessor_lines_eq)
  show "beautify_ruby_class combined_code site_name =
       Inr (join ''\<newline>''
         ([''class '' @ site_name, []] @
          (if directive_lines R \<noteq> [] then [''  include PageObject'', []] else []) @
          map (\<lambda>a. ''  '' @ a) (dedup_first (map strip (accessor_lines R))) @ [[]] @
          (if captured_lines R = [] then []
           else map (\<lambda>l. ''  '' @ l)
                  (captured_lines R @ (if length (captured_lines R) > 1 then [] else [''end''])) @
                [[]]) @
          (if filter (\<lambda>l. strip l \<noteq> []) (leftover_lines R) = [] then []
           else leftover_header #
                map (\<lambda>l. ''  '' @ strip l) (filter (\<lambda>l. strip l \<noteq> []) (leftover_lines R))) @
          [''end'']))"
    unfolding beautify_ruby_class_eq
    by (simp add: final_lines_def inc acc retained_method_section [OF R ne]
          retained_scan(2) [OF R ne] leftover_section_def Let_def)
qed

theorem no_loss_of_retained_lines_witness:
  "flatten_loop 0 (code_lines
     ''class P\<newline>  include PageObject\<newline>  link(:a)\<newline>  x = 1\<newline>\<newline> link(:a) \<newline>  def go\<newline>    click\<newline>  end\<newline>after'') =
     [''  include PageObject'', ''  link(:a)'', ''  x = 1'', [], '' link(:a) '', ''  def go'', ''    click''] \<and>
   beautify_ruby_class
     ''class P\<newline>  include PageObject\<newline>  link(:a)\<newline>  x = 1\<newline>\<newline> link(:a) \<newline>  def go\<newline>    click\<newline>  end\<newline>after''
     ''Page'' =
     Inr ''class Page\<newline>\<newline>  include PageObject\<newline>\<newline>  link(:a)\<newline>\<newline>    def go\<newline>      click\<newline>\<newline>  # leftover lines that did not belong to any recognized method or accessor\<newline>  x = 1\<newline>end''"
proof -
  let ?X = "''class P\<newline>  include PageObject\<newline>  link(:a)\<newline>  x = 1\<newline>\<newline> link(:a) \<newline>  def go\<newline>    click\<newline>  end\<newline>after''"
  let ?R = "[''  include PageObject'', ''  link(:a)'', ''  x = 1'', [], '' link(:a) '', ''  def go'', ''    click'']"
  have r: "flatten_loop 0 (code_lines ?X) = ?R" by code_simp
  have v: "join ''\<newline>''
         ([''class '' @ ''Page'', []] @
          (if directive_lines ?R \<noteq> [] then [''  include PageObject'', []] else []) @
          map (\<lambda>a. ''  '' @ a) (dedup_first (map strip (accessor_lines ?R))) @ [[]] @
          (if captured_lines ?R = [] then []
           else map (\<lambda>l. ''  '' @ l)
                  (captured_lines ?R @ (if length (captured_lines ?R) > 1 then [] else [''end''])) @
                [[]]) @
          (if filter (\<lambda>l. strip l \<noteq> []) (leftover_lines ?R) = [] then []
           else leftover_header #
                map (\<lambda>l. ''  '' @ strip l) (filter (\<lambda>l. strip l \<noteq> []) (leftover_lines ?R))) @
          [''end'']) =
     ''class Page\<newline>\<newline>  include PageObject\<newline>\<newline>  link(:a)\<newline>\<newline>    def go\<newline>      click\<newline>\<newline>  # leftover lines that did not belong to any recognized method or accessor\<newline>  x = 1\<newline>end''"
    by code_simp
  have "?R = flatten_loop 0 (code_lines ?X) \<and> ?R \<noteq> []" using r by simp
  with no_loss_of_retained_lines [of ?R ?X "''Page''"]
  have "beautify_ruby_class ?X ''Page'' = Inr (join ''\<newline>''
         ([''class '' @ ''Page'', []] @
          (if directive_lines ?R \<noteq> [] then [''  include PageObject'', []] else []) @
          map (\<lambda>a. ''  '' @ a) (dedup_first (map strip (accessor_lines ?R))) @ [[]] @
          (if captured_lines ?R = [] then []
           else map (\<lambda>l. ''  '' @ l)
                  (captured_lines ?R @ (if length (captured_lines ?R) > 1 then [] else [''end''])) @
                [[]]) @
          (if filter (\<lambda>l. strip l \<noteq> []) (leftover_lines ?R) = [] then []
           else leftover_header #
                map (\<lambda>l. ''  '' @ strip l) (filter (\<lambda>l. strip l \<noteq> []) (leftover_lines ?R))) @
          [''end'']))"
    by blast
  then show ?thesis unfolding v using r by blast
qed

section \<open>Carriage returns never reach the output\<close>

lemma set_join_lines:
  "c \<in> set (join ''\<newline>'' ls) \<Longrightarrow> c = CHR 0x0A \<or> (\<exists>l\<in>set ls. c \<in> set l)"
  using set_join [of "''\<newline>''" ls] by auto

lemma content_stream_no_cr:
  "l \<in> set (content_stream code) \<Longrightarrow> CHR 0x0D \<notin> set l"
  by (auto dest: content_stream_lines code_lines_no_cr)

lemma strip_no_cr: "CHR 0x0D \<notin> set l \<Longrightarrow> CHR 0x0D \<notin> set (strip l)"
  using set_strip_subset [of l] by blast

lemma merge_accessors_no_cr:
  "a \<in> set (merge_accessors code) \<Longrightarrow> CHR 0x0D \<notin> set a"
proof -
  assume "a \<in> set (merge_accessors code)"
  then obtain l where l: "l \<in> set (content_stream code)" and a: "a = strip l"
    using merge_accessors_set [of code] by auto
  have "CHR 0x0D \<notin> set l" using l by (rule content_stream_no_cr)
  then show ?thesis unfolding a by (rule strip_no_cr)
qed

lemma merge_scan_no_cr: "scan_inv (\<lambda>l. CHR 0x0D \<notin> set l) (merge_scan code)"
  by (rule scan_inv_merge_scan) (rule content_stream_no_cr)

lemma method_section_no_cr:
  assumes "methods_inv (\<lambda>l. CHR 0x0D \<notin> set l) m"
      "l \<in> set (method_section (map (\<lambda>(name, blocks). join ''\<newline>'' (merged_definition blocks)) m))"
  shows "CHR 0x0D \<notin> set l"
proof -
  show ?thesis
  proof (cases "l = []")
    case True then show ?thesis by simp
  next
    case False
  with method_section_member [OF assms(2)] obtain name blocks x where nb: "(name, blocks) \<in> set m"
    and x: "l = [] \<or> (l = ''  '' @ x \<and> x \<in> set (split_on (CHR 0x0A) (join ''\<newline>'' (merged_definition blocks))))"
    by auto
  from nb assms(1) have b: "list_all (\<lambda>b. b \<noteq> [] \<and> list_all (\<lambda>l. CHR 0x0D \<notin> set l) b) blocks"
      and ne: "blocks \<noteq> []"
    by (auto simp: methods_inv_def list_all_iff)
  have md: "list_all (\<lambda>l. CHR 0x0D \<notin> set l) (merged_definition blocks)"
    by (rule merged_definition_lines [OF b ne]) (simp_all add: separator_def)
  have j: "CHR 0x0D \<notin> set (join ''\<newline>'' (merged_definition blocks))"
    using md set_join_lines [of "CHR 0x0D" "merged_definition blocks"]
    by (auto simp: list_all_iff)
  from x show ?thesis
  proof
    assume "l = []" then show ?thesis by simp
  next
    assume "l = ''  '' @ x \<and> x \<in> set (split_on (CHR 0x0A) (join ''\<newline>'' (merged_definition blocks)))"
    then have l: "l = ''  '' @ x" and "set x \<subseteq> set (join ''\<newline>'' (merged_definition blocks))"
      using set_split_on by blast+
    then have "CHR 0x0D \<notin> set x" using j by blast
    then show ?thesis by (simp add: l)
  qed
  qed
qed

lemma leftover_section_no_cr:
  assumes "list_all (\<lambda>l. CHR 0x0D \<notin> set l) left" "l \<in> set (leftover_section left)"
  shows "CHR 0x0D \<notin> set l"
proof -
  from assms(2) have "l = leftover_header \<or> (\<exists>ln\<in>set left. l = ''  '' @ strip ln)"
    by (auto simp: leftover_section_def Let_def split: if_splits)
  then show ?thesis
  proof
    assume "l = leftover_header" then show ?thesis by (simp add: leftover_header_def)
  next
    assume "\<exists>ln\<in>set left. l = ''  '' @ strip ln"
    then obtain ln where "ln \<in> set left" and l: "l = ''  '' @ strip ln" by blast
    then have "CHR 0x0D \<notin> set ln" using assms(1) by (simp add: list_all_iff)
    then have "CHR 0x0D \<notin> set (strip ln)" by (rule strip_no_cr)
    then show ?thesis by (simp add: l)
  qed
qed

lemma beautify_no_cr:
  assumes "CHR 0x0D \<notin> set name" "beautify_ruby_class code name = Inr out"
  shows "CHR 0x0D \<notin> set out"
proof
  assume c: "CHR 0x0D \<in> set out"
  let ?m = "methods_extracted (merge_scan code)"
  let ?merged = "map (\<lambda>(name, blocks). join ''\<newline>'' (merged_definition blocks)) ?m"
  let ?fl = "final_lines name (merge_include code) (merge_accessors code) ?merged (leftover (merge_scan code))"
  have out: "out = join ''\<newline>'' ?fl" using assms(2) unfolding beautify_ruby_class_eq by simp
  from c obtain l where l: "l \<in> set ?fl" and cl: "CHR 0x0D \<in> set l"
    unfolding out using set_join_lines [of "CHR 0x0D" ?fl] by auto
  have inv: "methods_inv (\<lambda>l. CHR 0x0D \<notin> set l) ?m" and lo: "list_all (\<lambda>l. CHR 0x0D \<notin> set l) (leftover (merge_scan code))"
    using merge_scan_no_cr [of code] by (simp_all add: scan_inv_def)
  from l have "l = ''class '' @ name \<or> l = [] \<or> l = ''  include PageObject'' \<or>
      (\<exists>a\<in>set (merge_accessors code). l = ''  '' @ a) \<or> l \<in> set (method_section ?merged) \<or>
      l \<in> set (leftover_section (leftover (merge_scan code))) \<or> l = ''end''"
    unfolding final_lines_def by (auto split: if_splits)
  then have "CHR 0x0D \<notin> set l"
    using assms(1) merge_accessors_no_cr [of _ code] method_section_no_cr [OF inv, of l]
      leftover_section_no_cr [OF lo, of l]
    by (elim disjE) auto
  with cl show False by simp
qed

text \<open>
  C10. The pass gives the same result on a text and on the text with every CR LF pair
  and every remaining CR replaced by LF, and the output holds no CR unless the given
  name does.
\<close>

theorem merge_line_ending_insensitive:
  "beautify_ruby_class s site_name = beautify_ruby_class (unix_line_endings s) site_name \<and>
   (\<exists>out. beautify_ruby_class s site_name = Inr out \<and>
      (CHR 0x0D \<notin> set site_name \<longrightarrow> CHR 0x0D \<notin> set out))"
proof
  show "beautify_ruby_class s site_name = beautify_ruby_class (unix_line_endings s) site_name"
    by (simp only: beautify_ruby_class_def code_lines_unix)
  obtain out where out: "beautify_ruby_class s site_name = Inr out"
    unfolding beautify_ruby_class_eq by blast
  then have "CHR 0x0D \<notin> set site_name \<longrightarrow> CHR 0x0D \<notin> set out"
    using beautify_no_cr by blast
  with out show "\<exists>out. beautify_ruby_class s site_name = Inr out \<and>
      (CHR 0x0D \<notin> set site_name \<longrightarrow> CHR 0x0D \<notin> set out)" by blast
qed

theorem merge_line_ending_insensitive_witness:
  "beautify_ruby_class [CHR ''a'', CHR 0x0D, CHR 0x0A, CHR ''b'', CHR 0x0D, CHR ''c''] ''A'' =
     beautify_ruby_class ''a\<newline>b\<newline>c'' ''A'' \<and>
   beautify_ruby_class [CHR ''a'', CHR 0x0D, CHR 0x0A, CHR ''b'', CHR 0x0D, CHR ''c''] ''A'' =
     Inr ''class A\<newline>\<newline>\<newline>  # leftover lines that did not belong to any recognized method or accessor\<newline>  a\<newline>  b\<newline>  c\<newline>end'' \<and>
   (\<exists>out. beautify_ruby_class [CHR ''a'', CHR 0x0D, CHR 0x0A, CHR ''b'', CHR 0x0D, CHR ''c''] ''A'' = Inr out \<and>
      CHR 0x0D \<notin> set out)"
proof -
  have u: "unix_line_endings [CHR ''a'', CHR 0x0D, CHR 0x0A, CHR ''b'', CHR 0x0D, CHR ''c''] = ''a\<newline>b\<newline>c''"
    by code_simp
  have n: "CHR 0x0D \<notin> set ''A''" by simp
  have r: "beautify_ruby_class [CHR ''a'', CHR 0x0D, CHR 0x0A, CHR ''b'', CHR 0x0D, CHR ''c''] ''A'' =
     Inr ''class A\<newline>\<newline>\<newline>  # leftover lines that did not belong to any recognized method or accessor\<newline>  a\<newline>  b\<newline>  c\<newline>end''"
    by code_simp
  from merge_line_ending_insensitive [of "[CHR ''a'', CHR 0x0D, CHR 0x0A, CHR ''b'', CHR 0x0D, CHR ''c'']" "''A''"]
  show ?thesis unfolding u using n r by blast
qed

section \<open>Merging the output again\<close>

subsection \<open>The lines of the output\<close>

lemma methods_inv_mono:
  "methods_inv P m \<Longrightarrow> (\<And>l. P l \<Longrightarrow> Q l) \<Longrightarrow> methods_inv Q m"
  unfolding methods_inv_def list_all_iff by fastforce

lemma strip_class_line:
  assumes "strip name \<noteq> []"
  shows "startswith ''class '' (strip (''class '' @ name))"
proof -
  obtain pre post where n: "name = pre @ strip name @ post" and post: "\<forall>c\<in>set post. is_space c"
    using strip_decompose [of name] by blast
  let ?X = "''class '' @ pre @ strip name"
  have "''class '' @ name = ?X @ post" by (subst n) simp
  then have "strip (''class '' @ name) = strip (?X @ post)" by (rule arg_cong)
  also have "\<dots> = strip ?X" using post by (rule strip_append_spaces)
  also have "\<dots> = ?X"
  proof (rule strip_fixed)
    have "\<not> is_space (hd ?X)" by (simp add: is_space_def)
    moreover have "last ?X = last (strip name)" using assms by simp
    then have "\<not> is_space (last ?X)" using last_strip_not_space [OF assms] by simp
    ultimately show "?X = [] \<or> (\<not> is_space (hd ?X) \<and> \<not> is_space (last ?X))" by blast
  qed
  finally show ?thesis by (simp add: startswith_def)
qed

lemma flatten_loop_neutral:
  "0 < n \<Longrightarrow> \<forall>l\<in>set xs. neutral_line l \<Longrightarrow> flatten_loop n (xs @ ys) = xs @ flatten_loop n ys"
  by (induction xs) (auto simp: Let_def neutral_line_def)

lemma length_class: "length ''class '' = 6" by simp

lemma concat_map_member: "l \<in> set (concat (map f m)) \<Longrightarrow> \<exists>e\<in>set m. l \<in> set (f e)"
  by auto

lemma keyword_heads2:
  "kw \<in> set accessor_keywords \<Longrightarrow> take 2 kw \<noteq> ''cl'' \<and> take 2 kw \<noteq> ''en''"
  unfolding accessor_keywords_def by auto

lemma accessor_neutral:
  assumes "accessor_pattern (strip l)"
  shows "neutral_line l"
proof -
  from accessor_pattern_keyword [OF assms] obtain kw rest
    where kw: "kw \<in> set accessor_keywords" and e: "dropWhile is_space (strip l) = kw @ rest" by blast
  have s: "strip l = kw @ rest" using e by (simp only: dropWhile_strip)
  from keyword_heads [OF kw] keyword_heads2 [OF kw]
  have len: "2 \<le> length kw" and cl: "take 2 kw \<noteq> ''cl''" and en: "take 2 kw \<noteq> ''en''" by blast+
  have t: "take 2 (strip l) = take 2 kw" unfolding s using len by simp
  have "\<not> startswith ''class '' (strip l)"
  proof
    assume "startswith ''class '' (strip l)"
    then have "take 6 (strip l) = ''class ''" unfolding startswith_def length_class .
    then have "take 2 (take 6 (strip l)) = ''cl''" by simp
    then have "take 2 (strip l) = ''cl''" by (simp only: take_take) simp
    with t cl show False by simp
  qed
  moreover have "strip l \<noteq> ''end''"
  proof
    assume "strip l = ''end''"
    then have "take 2 (strip l) = ''en''" by simp
    with t en show False by simp
  qed
  ultimately show ?thesis by (simp add: neutral_line_def)
qed

lemma fixed_lines:
  "plain_line []" "no_break []" "neutral_line []"
  "plain_line separator" "no_break separator"
  "plain_line ''end''" "no_break ''end''"
  "plain_line leftover_header" "no_break leftover_header"
  "include_re (strip ''  include PageObject'')" "neutral_line ''  include PageObject''"
  "no_break ''  include PageObject''" "\<not> accessor_pattern (strip ''  include PageObject'')"
  by code_simp+

lemma indent_props:
  "plain_line (''  '' @ l) = plain_line l"
  "no_break (''  '' @ l) = no_break l"
  by (simp_all add: plain_line_def no_break_def)

lemma no_break_strip: "no_break l \<Longrightarrow> no_break (strip l)"
  using set_strip_subset [of l] unfolding no_break_def by blast

lemma plain_strip: "plain_line (strip l) = plain_line l"
  by (simp add: plain_line_def)

lemma merge_scan_plain:
  "scan_inv (\<lambda>l. no_break l \<and> plain_line l) (merge_scan code)"
proof (rule scan_inv_merge_scan)
  fix l assume l: "l \<in> set (content_stream code)"
    and "\<not> include_re (strip l)" "\<not> accessor_pattern (strip l)"
  then have "plain_line l" by (simp add: plain_line_def)
  moreover have "no_break l"
    using content_stream_lines [OF l] code_lines_no_lf code_lines_no_cr
    unfolding no_break_def by blast
  ultimately show "no_break l \<and> plain_line l" by blast
qed

lemma method_section_plain:
  assumes "methods_inv (\<lambda>l. no_break l \<and> plain_line l) m"
      "l \<in> set (method_section (map (\<lambda>(name, blocks). join ''\<newline>'' (merged_definition blocks)) m))"
  shows "no_break l \<and> plain_line l"
proof -
  have "methods_inv (\<lambda>l. CHR 0x0A \<notin> set l) m"
    using assms(1) by (rule methods_inv_mono) (simp add: no_break_def)
  from method_section_eq [OF this] assms(2)
  have "l \<in> set (concat (map (\<lambda>(name, blocks).
            map (\<lambda>line. ''  '' @ line) (merged_definition blocks) @ [[]]) m))" by simp
  from concat_map_member [OF this] obtain e where e: "e \<in> set m"
    and le: "l \<in> set ((\<lambda>(name, blocks).
            map (\<lambda>line. ''  '' @ line) (merged_definition blocks) @ [[]]) e)" by blast
  obtain name blocks where eq: "e = (name, blocks)" by (cases e)
  have nb: "(name, blocks) \<in> set m" using e eq by simp
  have l: "l \<in> set (map (\<lambda>line. ''  '' @ line) (merged_definition blocks) @ [[]])"
    using le unfolding eq by simp
  from nb assms(1) have b: "list_all (\<lambda>b. b \<noteq> [] \<and> list_all (\<lambda>l. no_break l \<and> plain_line l) b) blocks"
      and ne: "blocks \<noteq> []"
    by (auto simp: methods_inv_def list_all_iff)
  have md: "list_all (\<lambda>l. no_break l \<and> plain_line l) (merged_definition blocks)"
    by (rule merged_definition_lines [OF b ne]) (simp_all add: fixed_lines)
  from l have "l = [] \<or> (\<exists>x\<in>set (merged_definition blocks). l = ''  '' @ x)" by auto
  then show ?thesis
  proof
    assume "l = []" then show ?thesis by (simp add: fixed_lines)
  next
    assume "\<exists>x\<in>set (merged_definition blocks). l = ''  '' @ x"
    then obtain x where x: "x \<in> set (merged_definition blocks)" and lx: "l = ''  '' @ x" by blast
    from md x have "no_break x \<and> plain_line x" by (simp add: list_all_iff)
    then show ?thesis unfolding lx by (simp only: indent_props)
  qed
qed

lemma leftover_section_plain:
  assumes "list_all (\<lambda>l. no_break l \<and> plain_line l) left" "l \<in> set (leftover_section left)"
  shows "no_break l \<and> plain_line l"
proof -
  from assms(2) have "l = leftover_header \<or> (\<exists>ln\<in>set left. l = ''  '' @ strip ln)"
    by (auto simp: leftover_section_def Let_def split: if_splits)
  then show ?thesis
  proof
    assume "l = leftover_header" then show ?thesis by (simp add: fixed_lines)
  next
    assume "\<exists>ln\<in>set left. l = ''  '' @ strip ln"
    then obtain ln where ln: "ln \<in> set left" and l: "l = ''  '' @ strip ln" by blast
    from assms(1) ln have "no_break ln" "plain_line ln" by (simp_all add: list_all_iff)
    then have "no_break (strip ln) \<and> plain_line (strip ln)"
      by (simp add: no_break_strip plain_strip)
    then show ?thesis unfolding l by (simp only: indent_props)
  qed
qed

lemma merge_accessors_member:
  assumes "a \<in> set (merge_accessors code)"
  shows "strip a = a \<and> accessor_pattern a \<and> no_break a"
proof -
  from assms obtain l where l: "l \<in> set (content_stream code)" and acc: "accessor_pattern (strip l)"
    and a: "a = strip l"
    using merge_accessors_set [of code] by auto
  have "no_break l"
    using content_stream_lines [OF l] code_lines_no_lf code_lines_no_cr
    unfolding no_break_def by blast
  then show ?thesis unfolding a using acc by (simp add: no_break_strip)
qed

lemma filter_plain_accessor:
  "\<forall>l\<in>set F. plain_line l \<Longrightarrow> filter (\<lambda>l. accessor_pattern (strip l)) F = []"
  by (auto simp: filter_empty_conv plain_line_def)

lemma filter_plain_include:
  "\<forall>l\<in>set F. plain_line l \<Longrightarrow> filter (\<lambda>l. include_re (strip l)) F = []"
  by (auto simp: filter_empty_conv plain_line_def)

lemma remerge_content:
  assumes "no_break name" "strip name \<noteq> []" "beautify_ruby_class code name = Inr out"
  shows "\<exists>F. (\<forall>l\<in>set F. plain_line l) \<and>
           content_stream out =
             ([] # (if merge_include code then [''  include PageObject'', []] else []) @
              map (\<lambda>a. ''  '' @ a) (merge_accessors code) @ [[]]) @ F"
proof -
  let ?m = "methods_extracted (merge_scan code)"
  let ?merged = "map (\<lambda>(name, blocks). join ''\<newline>'' (merged_definition blocks)) ?m"
  let ?left = "leftover (merge_scan code)"
  let ?inc = "if merge_include code then [''  include PageObject'', []] else []"
  let ?accl = "map (\<lambda>a. ''  '' @ a) (merge_accessors code)"
  let ?K = "[] # ?inc @ ?accl @ [[]]"
  let ?rest = "method_section ?merged @ leftover_section ?left @ [''end'']"
  let ?hdr = "''class '' @ name"
  let ?L = "?hdr # ?K @ ?rest"
  have fl: "final_lines name (merge_include code) (merge_accessors code) ?merged ?left = ?L"
    by (simp add: final_lines_def)
  have "Inr (join ''\<newline>'' ?L) = (Inr out :: py_error + string)"
    using assms(3) unfolding beautify_ruby_class_eq fl .
  then have out: "out = join ''\<newline>'' ?L" by (simp only: sum.inject)
  have inv: "methods_inv (\<lambda>l. no_break l \<and> plain_line l) ?m"
    and lo: "list_all (\<lambda>l. no_break l \<and> plain_line l) ?left"
    using merge_scan_plain [of code] by (simp_all add: scan_inv_def)
  have rest: "\<forall>l\<in>set ?rest. no_break l \<and> plain_line l"
    using method_section_plain [OF inv] leftover_section_plain [OF lo]
    by (auto simp: fixed_lines)
  have accl: "\<forall>l\<in>set ?accl. no_break l \<and> neutral_line l"
  proof
    fix l assume "l \<in> set ?accl"
    then obtain a where a: "a \<in> set (merge_accessors code)" and l: "l = ''  '' @ a" by auto
    from merge_accessors_member [OF a] have s: "strip a = a" and ap: "accessor_pattern a"
      and nb: "no_break a" by blast+
    have "accessor_pattern (strip l)" unfolding l using s ap by simp
    then have "neutral_line l" by (rule accessor_neutral)
    moreover have "no_break l" unfolding l using nb by (simp only: indent_props)
    ultimately show "no_break l \<and> neutral_line l" by blast
  qed
  have K: "\<forall>l\<in>set ?K. no_break l \<and> neutral_line l"
    using accl by (auto simp: fixed_lines)
  have hdr: "no_break ?hdr" using assms(1) by (simp add: no_break_def)
  have "\<forall>l\<in>set ?L. CHR 0x0A \<notin> set l \<and> CHR 0x0D \<notin> set l"
    using hdr K rest unfolding no_break_def by auto
  then have cl: "code_lines out = ?L"
    unfolding out by (intro code_lines_join) simp_all
  have "flatten_loop 0 ?L = flatten_loop 1 (?K @ ?rest)"
    using strip_class_line [OF assms(2)] by (simp add: Let_def)
  also have "\<dots> = ?K @ flatten_loop 1 ?rest"
    using K by (intro flatten_loop_neutral) simp_all
  finally have f: "flatten_loop 0 ?L = ?K @ flatten_loop 1 ?rest" .
  have cs: "content_stream out = ?K @ flatten_loop 1 ?rest"
    unfolding content_stream_def flattened_lines_def cl Let_def f by simp
  have "\<forall>l\<in>set (flatten_loop 1 ?rest). plain_line l"
    using rest set_flatten_loop_subset [of 1 ?rest] by blast
  with cs show ?thesis by blast
qed

text \<open>For a name that has no line break and is not blank, merging the text of a merged
  block again under the same name gives the same accessor list and the same directive
  flag.\<close>

lemma remerge_keeps_accessors_and_directive:
  "no_break site_name \<and> strip site_name \<noteq> [] \<and>
   beautify_ruby_class combined_code site_name = Inr out \<longrightarrow>
     merge_accessors out = merge_accessors combined_code \<and>
     merge_include out = merge_include combined_code"
proof (intro impI)
  assume a: "no_break site_name \<and> strip site_name \<noteq> [] \<and>
   beautify_ruby_class combined_code site_name = Inr out"
  let ?accs = "merge_accessors combined_code"
  let ?inc = "if merge_include combined_code then [''  include PageObject'', []] else []"
  define accl where "accl = map (\<lambda>a. ''  '' @ a) ?accs"
  from a remerge_content [of site_name combined_code out] obtain F
    where F: "\<forall>l\<in>set F. plain_line l"
      and cs: "content_stream out = ([] # ?inc @ accl @ [[]]) @ F"
    unfolding accl_def by blast
  have acc_all: "\<forall>a\<in>set ?accs. accessor_pattern (strip (''  '' @ a)) \<and> strip (''  '' @ a) = a"
    using merge_accessors_member [of _ combined_code] by simp
  have fa: "filter (\<lambda>l. accessor_pattern (strip l)) accl = accl"
    unfolding accl_def using acc_all by (auto simp: filter_id_conv)
  have sa: "map strip accl = ?accs"
    unfolding accl_def using acc_all by (simp add: map_idI)
  have e0: "\<not> accessor_pattern (strip [])" using fixed_lines(1) by (simp add: plain_line_def)
  have fF: "filter (\<lambda>l. accessor_pattern (strip l)) F = []"
    by (rule filter_plain_accessor [OF F])
  have "filter (\<lambda>l. accessor_pattern (strip l)) (content_stream out) = accl"
    unfolding cs using e0 fixed_lines(13)
    by (simp add: fa fF del: strip_Nil strip_indent)
  then have "merge_accessors out = dedup_first (map strip accl)"
    by (simp only: merge_accessors_eq)
  also have "\<dots> = dedup_first ?accs" by (simp only: sa)
  also have "\<dots> = ?accs"
    by (rule dedup_first_distinct) (simp add: merge_accessors_eq)
  finally have 1: "merge_accessors out = ?accs" .
  have ia: "filter (\<lambda>l. include_re (strip l)) accl = []"
  proof -
    have "\<forall>l\<in>set accl. \<not> include_re (strip l)"
      unfolding accl_def using acc_all include_not_accessor by fastforce
    then show ?thesis by (simp add: filter_empty_conv)
  qed
  have i0: "\<not> include_re (strip [])" using fixed_lines(1) by (simp add: plain_line_def)
  have iF: "filter (\<lambda>l. include_re (strip l)) F = []"
    by (rule filter_plain_include [OF F])
  have "directive_lines (content_stream out) =
          (if merge_include combined_code then [''  include PageObject''] else [])"
    unfolding cs directive_lines_def using i0 fixed_lines(10)
    by (simp add: ia iF del: strip_Nil strip_indent)
  then have 2: "merge_include out = merge_include combined_code"
    by (simp add: merge_include_eq)
  from 1 2 show "merge_accessors out = merge_accessors combined_code \<and>
     merge_include out = merge_include combined_code" by blast
qed

lemma remerge_keeps_accessors_and_directive_example:
  "beautify_ruby_class ''class P\<newline>include PageObject\<newline>link(:a)\<newline>button(:b)\<newline>link(:a)\<newline>end'' ''A'' =
     Inr ''class A\<newline>\<newline>  include PageObject\<newline>\<newline>  link(:a)\<newline>  button(:b)\<newline>\<newline>end'' \<and>
   merge_accessors ''class A\<newline>\<newline>  include PageObject\<newline>\<newline>  link(:a)\<newline>  button(:b)\<newline>\<newline>end'' =
     merge_accessors ''class P\<newline>include PageObject\<newline>link(:a)\<newline>button(:b)\<newline>link(:a)\<newline>end'' \<and>
   merge_include ''class A\<newline>\<newline>  include PageObject\<newline>\<newline>  link(:a)\<newline>  button(:b)\<newline>\<newline>end'' =
     merge_include ''class P\<newline>include PageObject\<newline>link(:a)\<newline>button(:b)\<newline>link(:a)\<newline>end'' \<and>
   merge_accessors ''class P\<newline>include PageObject\<newline>link(:a)\<newline>button(:b)\<newline>link(:a)\<newline>end'' =
     [''link(:a)'', ''button(:b)'']"
proof -
  let ?X = "''class P\<newline>include PageObject\<newline>link(:a)\<newline>button(:b)\<newline>link(:a)\<newline>end''"
  let ?out = "''class A\<newline>\<newline>  include PageObject\<newline>\<newline>  link(:a)\<newline>  button(:b)\<newline>\<newline>end''"
  have r: "beautify_ruby_class ?X ''A'' = Inr ?out" by code_simp
  have n: "no_break ''A'' \<and> strip ''A'' \<noteq> []" by code_simp
  have v: "merge_accessors ?X = [''link(:a)'', ''button(:b)'']" by code_simp
  from remerge_keeps_accessors_and_directive [of "''A''" ?X ?out] n r
  have "merge_accessors ?out = merge_accessors ?X \<and> merge_include ?out = merge_include ?X"
    by blast
  with r v show ?thesis by blast
qed

text \<open>
  C1. Merging the output again is not idempotent on the procedures. Two methods
  \<open>a\<close> and \<open>b\<close> merge into a block with both; in the text of that block the
  \<open>end\<close> of method \<open>a\<close> is taken by step 1 as the end of the class, so the second
  pass retains only the two empty lines and the opening line of \<open>a\<close>: method
  \<open>b\<close> is gone and \<open>a\<close> has lost its closing line.
\<close>

theorem remerge_loses_procedure:
  "beautify_ruby_class ''def a\<newline>end\<newline>def b\<newline>end'' ''A'' =
     Inr ''class A\<newline>\<newline>\<newline>  def a\<newline>  end\<newline>\<newline>  def b\<newline>  end\<newline>\<newline>end'' \<and>
   merge_method_names ''def a\<newline>end\<newline>def b\<newline>end'' = [''a'', ''b''] \<and>
   content_stream ''class A\<newline>\<newline>\<newline>  def a\<newline>  end\<newline>\<newline>  def b\<newline>  end\<newline>\<newline>end'' =
     [[], [], ''  def a''] \<and>
   merge_method_names ''class A\<newline>\<newline>\<newline>  def a\<newline>  end\<newline>\<newline>  def b\<newline>  end\<newline>\<newline>end'' = [''a''] \<and>
   set (merge_method_names ''class A\<newline>\<newline>\<newline>  def a\<newline>  end\<newline>\<newline>  def b\<newline>  end\<newline>\<newline>end'') \<noteq>
     set (merge_method_names ''def a\<newline>end\<newline>def b\<newline>end'') \<and>
   beautify_ruby_class ''class A\<newline>\<newline>\<newline>  def a\<newline>  end\<newline>\<newline>  def b\<newline>  end\<newline>\<newline>end'' ''A'' =
     Inr ''class A\<newline>\<newline>\<newline>    def a\<newline>  end\<newline>\<newline>end''"
  by code_simp

section \<open>The accessor lines of the output\<close>

lemma strip_Nil_all_space: "strip name = [] \<Longrightarrow> \<forall>c\<in>set name. is_space c"
proof -
  assume e: "strip name = []"
  obtain pre post where n: "name = pre @ strip name @ post"
    and pre: "\<forall>c\<in>set pre. is_space c" and post: "\<forall>c\<in>set post. is_space c"
    using strip_decompose [of name] by blast
  have "name = pre @ [] @ post" by (rule n [unfolded e])
  then have "set name = set pre \<union> set post" by simp
  then show ?thesis using pre post by blast
qed

lemma strip_class_word: "strip ''class'' = ''class''"
  by code_simp

lemma class_line_head: "take 2 (strip (''class '' @ name)) = ''cl''"
proof (cases "strip name = []")
  case True
  then have "\<forall>c\<in>set (CHR '' '' # name). is_space c"
    using strip_Nil_all_space [of name] by simp
  then have "strip (''class'' @ (CHR '' '' # name)) = strip ''class''"
    by (rule strip_append_spaces)
  then have "strip (''class '' @ name) = ''class''" by (simp add: strip_class_word)
  then show ?thesis by simp
next
  case False
  from strip_class_line [OF False] have "take 6 (strip (''class '' @ name)) = ''class ''"
    unfolding startswith_def length_class .
  then have "take 2 (take 6 (strip (''class '' @ name))) = ''cl''" by simp
  then show ?thesis by (simp only: take_take) simp
qed

lemma class_line_not_accessor: "\<not> accessor_pattern (strip (''class '' @ name))"
proof
  let ?s = "strip (''class '' @ name)"
  assume a: "accessor_pattern ?s"
  from accessor_pattern_keyword [OF a] obtain kw rest
    where kw: "kw \<in> set accessor_keywords" and e: "dropWhile is_space ?s = kw @ rest" by blast
  have s: "?s = kw @ rest" using e by (simp only: dropWhile_strip)
  from keyword_heads [OF kw] keyword_heads2 [OF kw]
  have len: "2 \<le> length kw" and cl: "take 2 kw \<noteq> ''cl''" by blast+
  have "take 2 (kw @ rest) = take 2 kw" using len by simp
  then have "take 2 ?s = take 2 kw" by (simp only: s)
  with class_line_head [of name] cl show False by simp
qed

lemma final_lines_accessors:
  assumes "\<forall>a\<in>set accessors. accessor_pattern a \<and> strip a = a"
      "\<forall>l\<in>set (method_section merged). plain_line l"
      "\<forall>l\<in>set (leftover_section left). plain_line l"
  shows "filter (\<lambda>l. accessor_pattern (strip l)) (final_lines name found accessors merged left) =
         map (\<lambda>a. ''  '' @ a) accessors"
proof -
  define accl where "accl = map (\<lambda>a. ''  '' @ a) accessors"
  define hdr where "hdr = ''class '' @ name"
  have fl: "final_lines name found accessors merged left =
      [hdr, []] @ (if found then [''  include PageObject'', []] else []) @ accl @ [[]] @
      method_section merged @ leftover_section left @ [''end'']"
    unfolding final_lines_def accl_def hdr_def ..
  have h: "\<not> accessor_pattern (strip hdr)" unfolding hdr_def by (rule class_line_not_accessor)
  have e0: "\<not> accessor_pattern (strip [])" using fixed_lines(1) by (simp add: plain_line_def)
  have e1: "\<not> accessor_pattern (strip ''end'')" using fixed_lines(6) by (simp add: plain_line_def)
  have fa: "filter (\<lambda>l. accessor_pattern (strip l)) accl = accl"
    unfolding accl_def using assms(1) by (auto simp: filter_id_conv)
  have fm: "filter (\<lambda>l. accessor_pattern (strip l)) (method_section merged) = []"
    by (rule filter_plain_accessor [OF assms(2)])
  have fo: "filter (\<lambda>l. accessor_pattern (strip l)) (leftover_section left) = []"
    by (rule filter_plain_accessor [OF assms(3)])
  have r: "filter (\<lambda>l. accessor_pattern (strip l))
      ([hdr, []] @ (if found then [''  include PageObject'', []] else []) @ accl @ [[]] @
      method_section merged @ leftover_section left @ [''end'']) = accl"
    using h e0 e1 fixed_lines(13)
    by (simp add: fa fm fo del: strip_Nil strip_indent)
  show ?thesis by (subst fl, subst r) (simp only: accl_def)
qed

lemma map_strip_indent:
  "\<forall>a\<in>set accessors. strip a = a \<Longrightarrow> map strip (map (\<lambda>a. ''  '' @ a) accessors) = accessors"
  by (simp add: map_idI)

text \<open>
  C7. The output is the text of the lines that step 6 assembles; among those lines the
  ones that match the accessor pattern are, in order, the indented accessor list, and that
  list is the first-seen-order deduplication of the stripped accessor-matching lines of
  the content stream (the lines of step 1; a line that the directive step removes is
  never an accessor line): every distinct stripped accessor line once, no two equal, in
  the order of first occurrence.
\<close>

theorem accessors_first_seen_dedup:
  "beautify_ruby_class combined_code site_name =
     Inr (join ''\<newline>''
       (final_lines site_name (merge_include combined_code)
          (dedup_first (map strip (filter (\<lambda>line. accessor_pattern (strip line))
                                          (content_stream combined_code))))
          (map (\<lambda>(name, blocks). join ''\<newline>'' (merged_definition blocks))
               (methods_extracted (merge_scan combined_code)))
          (leftover (merge_scan combined_code)))) \<and>
   map strip (filter (\<lambda>l. accessor_pattern (strip l))
       (final_lines site_name (merge_include combined_code)
          (dedup_first (map strip (filter (\<lambda>line. accessor_pattern (strip line))
                                          (content_stream combined_code))))
          (map (\<lambda>(name, blocks). join ''\<newline>'' (merged_definition blocks))
               (methods_extracted (merge_scan combined_code)))
          (leftover (merge_scan combined_code)))) =
     dedup_first (map strip (filter (\<lambda>line. accessor_pattern (strip line))
                                    (content_stream combined_code))) \<and>
   merge_accessors combined_code =
     dedup_first (map strip (filter (\<lambda>line. accessor_pattern (strip line))
                                    (content_stream combined_code))) \<and>
   distinct (merge_accessors combined_code) \<and>
   set (merge_accessors combined_code) =
     strip ` {line \<in> set (content_stream combined_code). accessor_pattern (strip line)}"
proof -
  let ?m = "methods_extracted (merge_scan combined_code)"
  let ?merged = "map (\<lambda>(name, blocks). join ''\<newline>'' (merged_definition blocks)) ?m"
  let ?left = "leftover (merge_scan combined_code)"
  let ?D = "dedup_first (map strip (filter (\<lambda>line. accessor_pattern (strip line))
                                    (content_stream combined_code)))"
  have acc: "merge_accessors combined_code = ?D" by (rule merge_accessors_eq)
  have inv: "methods_inv (\<lambda>l. no_break l \<and> plain_line l) ?m"
    and lo: "list_all (\<lambda>l. no_break l \<and> plain_line l) ?left"
    using merge_scan_plain [of combined_code] by (simp_all add: scan_inv_def)
  have ms: "\<forall>l\<in>set (method_section ?merged). plain_line l"
    using method_section_plain [OF inv] by blast
  have ls: "\<forall>l\<in>set (leftover_section ?left). plain_line l"
    using leftover_section_plain [OF lo] by blast
  have mem: "\<forall>a\<in>set ?D. accessor_pattern a \<and> strip a = a"
    using merge_accessors_member [of _ combined_code] unfolding acc by blast
  have 1: "beautify_ruby_class combined_code site_name =
     Inr (join ''\<newline>'' (final_lines site_name (merge_include combined_code) ?D ?merged ?left))"
    unfolding beautify_ruby_class_eq acc ..
  have memS: "\<forall>a\<in>set ?D. strip a = a" using mem by blast
  have fil: "filter (\<lambda>l. accessor_pattern (strip l))
          (final_lines site_name (merge_include combined_code) ?D ?merged ?left) =
        map (\<lambda>a. ''  '' @ a) ?D"
    by (rule final_lines_accessors [OF mem ms ls])
  have 2: "map strip (filter (\<lambda>l. accessor_pattern (strip l))
          (final_lines site_name (merge_include combined_code) ?D ?merged ?left)) = ?D"
    unfolding fil by (rule map_strip_indent [OF memS])
  have 3: "distinct (merge_accessors combined_code)" unfolding acc by (rule distinct_dedup_first)
  have 4: "set (merge_accessors combined_code) =
     strip ` {line \<in> set (content_stream combined_code). accessor_pattern (strip line)}"
    by (rule merge_accessors_set)
  show ?thesis by (intro conjI 1 2 acc 3 4)
qed

section \<open>Concrete runs\<close>

text \<open>
  C2. An input without class line falls back to the whole input, as the first run shows.
  The source's comment on the fallback reads "If no classes recognized, fallback to
  entire file", but the test is that no line was retained. On the input of a class header
  followed by its end, a class is recognised and nothing is retained, so the fallback
  runs and both marker lines come out as leftover lines.
\<close>

theorem fallback_runs_on_empty_class:
  "beautify_ruby_class ''include PageObject\<newline>link(:x)'' ''A'' =
     Inr ''class A\<newline>\<newline>  include PageObject\<newline>\<newline>  link(:x)\<newline>\<newline>end'' \<and>
   flatten_loop 0 (code_lines ''class P\<newline>end'') = [] \<and>
   content_stream ''class P\<newline>end'' = [''class P'', ''end''] \<and>
   beautify_ruby_class ''class P\<newline>end'' ''A'' =
     Inr ''class A\<newline>\<newline>\<newline>  # leftover lines that did not belong to any recognized method or accessor\<newline>  class P\<newline>  end\<newline>end''"
  by code_simp

text \<open>
  C5. The scenario with the source's markers (\<open>class P\<close> opens the block,
  \<open>def go\<close> opens the method). Among the lines of the output exactly one has the
  stripped text \<open>include PageObject\<close> and exactly one the stripped text
  \<open>text_field(:a)\<close>; exactly one line opens a method, and it opens \<open>go\<close>; the
  lines that follow it up to the closing \<open>end\<close> of the output hold, blank lines
  apart, the single line \<open>click\<close>. The one merged method is \<open>go\<close>, and its
  lines after the opening line are the line \<open>click\<close>. (Step 1 takes the
  \<open>end\<close> of the method as the end of the class, so the method is filed as the two
  lines \<open>def go\<close>, \<open>click\<close> and the output has no further \<open>end\<close>.)
\<close>

theorem login_scenario_output:
  "beautify_ruby_class
     ''class P\<newline>include PageObject\<newline>text_field(:a)\<newline>text_field(:a)\<newline>def go\<newline>click\<newline>end\<newline>end''
     ''Login'' =
     Inr ''class Login\<newline>\<newline>  include PageObject\<newline>\<newline>  text_field(:a)\<newline>\<newline>  def go\<newline>  click\<newline>\<newline>end'' \<and>
   split_on (CHR 0x0A) ''class Login\<newline>\<newline>  include PageObject\<newline>\<newline>  text_field(:a)\<newline>\<newline>  def go\<newline>  click\<newline>\<newline>end'' =
     [''class Login'', [], ''  include PageObject'', [], ''  text_field(:a)'', [],
      ''  def go'', ''  click'', [], ''end''] \<and>
   length (filter (\<lambda>l. strip l = ''include PageObject'') (split_on (CHR 0x0A) ''class Login\<newline>\<newline>  include PageObject\<newline>\<newline>  text_field(:a)\<newline>\<newline>  def go\<newline>  click\<newline>\<newline>end'')) = 1 \<and>
   length (filter (\<lambda>l. strip l = ''text_field(:a)'') (split_on (CHR 0x0A) ''class Login\<newline>\<newline>  include PageObject\<newline>\<newline>  text_field(:a)\<newline>\<newline>  def go\<newline>  click\<newline>\<newline>end'')) = 1 \<and>
   map def_pattern (filter (\<lambda>l. def_pattern l \<noteq> None) (split_on (CHR 0x0A) ''class Login\<newline>\<newline>  include PageObject\<newline>\<newline>  text_field(:a)\<newline>\<newline>  def go\<newline>  click\<newline>\<newline>end'')) =
     [Some ''go''] \<and>
   filter (\<lambda>l. strip l \<noteq> [])
     (takeWhile (\<lambda>l. strip l \<noteq> ''end'')
        (tl (dropWhile (\<lambda>l. def_pattern l = None) (split_on (CHR 0x0A) ''class Login\<newline>\<newline>  include PageObject\<newline>\<newline>  text_field(:a)\<newline>\<newline>  def go\<newline>  click\<newline>\<newline>end'')))) =
     [''  click''] \<and>
   merge_method_names ''class P\<newline>include PageObject\<newline>text_field(:a)\<newline>text_field(:a)\<newline>def go\<newline>click\<newline>end\<newline>end'' = [''go''] \<and>
   map (\<lambda>(name, blocks). tl (merged_definition blocks)) (methods_extracted (merge_scan ''class P\<newline>include PageObject\<newline>text_field(:a)\<newline>text_field(:a)\<newline>def go\<newline>click\<newline>end\<newline>end'')) =
     [[''click'']]"
  by code_simp

end
